theory Spec2Isabelle
  imports Complex_Main
begin

section \<open>Quantity parsing and scaling of \<open>src/app.py\<close>\<close>

text \<open>
  The development embeds the two utility functions of \<open>src/app.py\<close>,
  \<open>parse_quantity\<close> (lines 42-71) and \<open>format_scaled_quantity\<close> (lines 73-91), the
  computation of the scaling factor (line 501) and the ingredient loop (lines 524-535).

  Conventions of the embedding.
  \<^item> A Python \<open>str\<close> is the list of its code points. The model covers the code points
    below 256, which is what \<^typ>\<open>char\<close> holds; the character classes below are Python's
    classes restricted to that range.
  \<^item> A Python \<open>float\<close> is idealised as an exact rational number (\<^typ>\<open>rat\<close>): rounding
    error, infinities and overflow of IEEE doubles are outside the model, and so is
    the limit on the number of digits \<open>int()\<close> converts.
  \<^item> A raised exception is a value \<open>Inl e\<close> of a sum type; a normal return is \<open>Inr v\<close>.
  \<^item> Python's \<open>None\<close> magnitude is \<open>None\<close> of \<^typ>\<open>rat option\<close>.
\<close>

subsection \<open>Exceptions\<close>

datatype py_error = ValueError | ZeroDivisionError | IndexError

subsection \<open>Characters and the string methods used by the source\<close>

text \<open>\<open>\d\<close> of a \<open>str\<close> pattern: the decimal digits; below 256 these are \<open>0\<close> .. \<open>9\<close>.\<close>

definition is_digit :: "char \<Rightarrow> bool" where
  "is_digit c = (48 \<le> (of_char c :: nat) \<and> (of_char c :: nat) \<le> 57)"

text \<open>
  \<open>\s\<close>, \<open>str.isspace\<close>, and what \<open>strip()\<close> and \<open>split()\<close> remove: below 256 the code
  points 9-13, 28-32, 133 and 160.
\<close>

definition is_space :: "char \<Rightarrow> bool" where
  "is_space c = (let n = (of_char c :: nat) in
     (9 \<le> n \<and> n \<le> 13) \<or> (28 \<le> n \<and> n \<le> 32) \<or> n = 133 \<or> n = 160)"

text \<open>
  \<open>str.lower\<close>: below 256 the upper-case letters are \<open>A\<close> .. \<open>Z\<close> and the code points
  192 .. 222 without 215; each is mapped 32 places up.
\<close>

definition lower_char :: "char \<Rightarrow> char" where
  "lower_char c = (let n = (of_char c :: nat) in
     if (65 \<le> n \<and> n \<le> 90) \<or> (192 \<le> n \<and> n \<le> 222 \<and> n \<noteq> 215)
     then char_of (n + 32) else c)"

definition str_lower :: "string \<Rightarrow> string" where
  "str_lower s = map lower_char s"

definition str_lstrip :: "string \<Rightarrow> string" where
  "str_lstrip s = dropWhile is_space s"

definition str_rstrip :: "string \<Rightarrow> string" where
  "str_rstrip s = rev (dropWhile is_space (rev s))"

definition str_strip :: "string \<Rightarrow> string" where
  "str_strip s = str_rstrip (str_lstrip s)"

text \<open>
  \<open>s.split()\<close> without argument: the maximal runs of non-whitespace, in order. The
  first argument accumulates the run being read.
\<close>

fun split_ws :: "string \<Rightarrow> string \<Rightarrow> string list" where
  "split_ws w [] = (if w = [] then [] else [w])"
| "split_ws w (c # cs) =
     (if is_space c then (if w = [] then split_ws [] cs else w # split_ws [] cs)
      else split_ws (w @ [c]) cs)"

definition str_split :: "string \<Rightarrow> string list" where
  "str_split s = split_ws [] s"

text \<open>\<open>s.split(sep)\<close> for a one-character separator: empty pieces are kept.\<close>

fun split_on :: "char \<Rightarrow> string \<Rightarrow> string \<Rightarrow> string list" where
  "split_on sep w [] = [w]"
| "split_on sep w (c # cs) =
     (if c = sep then w # split_on sep [] cs else split_on sep (w @ [c]) cs)"

definition str_split_sep :: "char \<Rightarrow> string \<Rightarrow> string list" where
  "str_split_sep sep s = split_on sep [] s"

subsection \<open>Conversions between strings and numbers\<close>

definition digit_val :: "char \<Rightarrow> nat" where
  "digit_val c = of_char c - 48"

definition digits_val :: "string \<Rightarrow> nat" where
  "digits_val s = foldl (\<lambda>a c. 10 * a + digit_val c) 0 s"

text \<open>
  The whitespace that \<open>int()\<close> and \<open>float()\<close> ignore around a number is narrower than
  \<open>str.isspace\<close>: below 256 the code points 9-13, 32, 133 and 160, without the
  separators 28-31.
\<close>

definition is_num_space :: "char \<Rightarrow> bool" where
  "is_num_space c = (let n = (of_char c :: nat) in
     (9 \<le> n \<and> n \<le> 13) \<or> n = 32 \<or> n = 133 \<or> n = 160)"

definition num_strip :: "string \<Rightarrow> string" where
  "num_strip s = rev (dropWhile is_num_space (rev (dropWhile is_num_space s)))"

text \<open>
  \<open>int(s)\<close> on a string: surrounding whitespace is ignored and a non-empty run of
  digits is read in base 10; \<open>None\<close> stands for the \<open>ValueError\<close>. The strings the
  source passes are pieces of a match of its pattern, hence made of digits,
  whitespace, \<open>.\<close> and \<open>/\<close> only; on such strings \<open>int\<close> accepts nothing else (signs and
  underscores, which \<open>int\<close> also reads, cannot occur).
\<close>

definition py_int :: "string \<Rightarrow> int option" where
  "py_int s = (let t = num_strip s in
     if t \<noteq> [] \<and> list_all is_digit t then Some (int (digits_val t)) else None)"

text \<open>
  \<open>float(s)\<close> on a string, with the same proviso: after stripping, the accepted
  forms over digits and \<open>.\<close> are \<open>D+\<close>, \<open>D+.D*\<close> and \<open>D*.D+\<close>; \<open>None\<close> stands for the
  \<open>ValueError\<close>. Exponents, signs, \<open>inf\<close> and \<open>nan\<close> cannot occur in a match.
\<close>

definition py_float :: "string \<Rightarrow> rat option" where
  "py_float s = (let t = num_strip s;
                     ip = takeWhile is_digit t;
                     r = dropWhile is_digit t
     in case r of
          [] \<Rightarrow> if ip \<noteq> [] then Some (of_nat (digits_val ip)) else None
        | c # fp \<Rightarrow>
            if c = CHR ''.'' \<and> list_all is_digit fp \<and> (ip \<noteq> [] \<or> fp \<noteq> [])
            then Some (of_nat (digits_val ip) + of_nat (digits_val fp) / 10 ^ length fp)
            else None)"

text \<open>\<open>str(n)\<close> for a non-negative integer: its decimal digits, most significant first.\<close>

function str_of_nat :: "nat \<Rightarrow> string" where
  "str_of_nat n =
     (if n < 10 then [char_of (48 + n)] else str_of_nat (n div 10) @ [char_of (48 + n mod 10)])"
  by pat_completeness auto
termination
  by (relation "measure (\<lambda>n. n)") auto

declare str_of_nat.simps [simp del]

definition str_of_int :: "int \<Rightarrow> string" where
  "str_of_int i = (if i < 0 then CHR ''-'' # str_of_nat (nat (- i)) else str_of_nat (nat i))"

text \<open>\<open>int(x)\<close> of a float: truncation towards zero.\<close>

definition py_trunc :: "rat \<Rightarrow> int" where
  "py_trunc x = (if 0 \<le> x then \<lfloor>x\<rfloor> else \<lceil>x\<rceil>)"

text \<open>
  Rounding of a non-negative rational to the nearest integer, a tie going to the even
  neighbour, as the formatting of a float does with the exact value it holds.
\<close>

definition round_half_even :: "rat \<Rightarrow> nat" where
  "round_half_even r = (let f = nat \<lfloor>r\<rfloor>; d = r - of_nat f in
     if d < 1 / 2 then f else if 1 / 2 < d then f + 1 else if even f then f else f + 1)"

text \<open>
  The format \<open>{x:.2f}\<close>: the sign of a negative number (kept even when the digits round
  to zero), the integer digits, a point and exactly two decimals.
\<close>

definition format_2f :: "rat \<Rightarrow> string" where
  "format_2f x = (let h = round_half_even (\<bar>x\<bar> * 100) in
     (if x < 0 then ''-'' else '''') @ str_of_nat (h div 100) @ ''.'' @
     [char_of (48 + (h mod 100) div 10), char_of (48 + h mod 10)])"

subsection \<open>The regular expression of \<open>parse_quantity\<close>\<close>

text \<open>
  The pattern \<^verbatim>\<open>(\d+\s*\d*/\d+|\d*\.\d+|\d+/\d+|\d+)\<close> is a list of alternatives, each a
  sequence of items, each item a character class under a quantifier. The matcher is
  the backtracking matcher of \<open>re\<close> written as a list of successes: for a position it
  returns the remainders of the string after every way the pattern can match there,
  in the order in which backtracking finds them (a greedy quantifier tries its
  longest run first, an alternation its left branch first). \<open>re.match\<close> returns
  the first.
\<close>

datatype cls = Digit | Space | Lit char

datatype item = One cls | Star cls | Plus cls

fun cls_ok :: "cls \<Rightarrow> char \<Rightarrow> bool" where
  "cls_ok Digit c = is_digit c"
| "cls_ok Space c = is_space c"
| "cls_ok (Lit d) c = (c = d)"

fun star_ends :: "cls \<Rightarrow> string \<Rightarrow> string list" where
  "star_ends k [] = [[]]"
| "star_ends k (c # cs) = (if cls_ok k c then star_ends k cs @ [c # cs] else [c # cs])"

fun item_ends :: "item \<Rightarrow> string \<Rightarrow> string list" where
  "item_ends (One k) s = (case s of [] \<Rightarrow> [] | c # cs \<Rightarrow> if cls_ok k c then [cs] else [])"
| "item_ends (Star k) s = star_ends k s"
| "item_ends (Plus k) s =
     (case s of [] \<Rightarrow> [] | c # cs \<Rightarrow> if cls_ok k c then star_ends k cs else [])"

fun seq_ends :: "item list \<Rightarrow> string \<Rightarrow> string list" where
  "seq_ends [] s = [s]"
| "seq_ends (i # is) s = concat (map (seq_ends is) (item_ends i s))"

definition alt_ends :: "item list list \<Rightarrow> string \<Rightarrow> string list" where
  "alt_ends alts s = concat (map (\<lambda>a. seq_ends a s) alts)"

text \<open>\<open>re.match(p, s)\<close>: \<open>None\<close>, or \<open>group(0)\<close> of the match, the prefix consumed.\<close>

definition re_match :: "item list list \<Rightarrow> string \<Rightarrow> string option" where
  "re_match p s =
     (case alt_ends p s of [] \<Rightarrow> None | r # _ \<Rightarrow> Some (take (length s - length r) s))"

definition quantity_pattern :: "item list list" where
  "quantity_pattern =
     [[Plus Digit, Star Space, Star Digit, One (Lit (CHR ''/'')), Plus Digit],
      [Star Digit, One (Lit (CHR ''.'')), Plus Digit],
      [Plus Digit, One (Lit (CHR ''/'')), Plus Digit],
      [Plus Digit]]"

subsection \<open>\<open>parse_quantity\<close>\<close>

text \<open>
  \<open>numerator, denominator = map(int, pieces)\<close> followed by \<open>numerator / denominator\<close>:
  the unpacking needs exactly two pieces, each read by \<open>int\<close>, and the division
  raises on a zero denominator.
\<close>

definition int_ratio :: "string list \<Rightarrow> py_error + rat" where
  "int_ratio pieces =
     (case pieces of
        [a, b] \<Rightarrow>
          (case py_int a of
             None \<Rightarrow> Inl ValueError
           | Some numerator \<Rightarrow>
               (case py_int b of
                  None \<Rightarrow> Inl ValueError
                | Some denominator \<Rightarrow>
                    if denominator = 0 then Inl ZeroDivisionError
                    else Inr (of_int numerator / of_int denominator)))
      | _ \<Rightarrow> Inl ValueError)"

definition parse_quantity :: "string \<Rightarrow> py_error + (rat option \<times> string)" where
  "parse_quantity raw =
     (let quantity_str = str_lower (str_strip raw) in
      case re_match quantity_pattern quantity_str of
        None \<Rightarrow> Inr (None, quantity_str)
      | Some group0 \<Rightarrow>
          (let number_str = str_strip group0;
               unit_str = str_strip (drop (length number_str) quantity_str)
           in
           if CHR '' '' \<in> set number_str \<and> CHR ''/'' \<in> set number_str then
             (case str_split number_str of
                [] \<Rightarrow> Inl IndexError
              | p0 # ps \<Rightarrow>
                  (case py_float p0 of
                     None \<Rightarrow> Inl ValueError
                   | Some whole \<Rightarrow>
                       (case ps of
                          [] \<Rightarrow> Inl IndexError
                        | p1 # _ \<Rightarrow>
                            (case int_ratio (str_split_sep (CHR ''/'') p1) of
                               Inl e \<Rightarrow> Inl e
                             | Inr q \<Rightarrow> Inr (Some (whole + q), unit_str)))))
           else if CHR ''/'' \<in> set number_str then
             (case int_ratio (str_split_sep (CHR ''/'') number_str) of
                Inl e \<Rightarrow> Inl e
              | Inr q \<Rightarrow> Inr (Some q, unit_str))
           else
             (case py_float number_str of
                None \<Rightarrow> Inr (None, quantity_str)
              | Some quantity \<Rightarrow> Inr (Some quantity, unit_str))))"

subsection \<open>\<open>format_scaled_quantity\<close>\<close>

text \<open>
  The f-string \<open>{int(number) if int(number) > 0 else ''} <quarter>\<close> followed by
  \<open>strip()\<close>, for the three quarter branches.
\<close>

definition whole_and :: "int \<Rightarrow> string \<Rightarrow> string" where
  "whole_and w quarter =
     str_strip ((if w > 0 then str_of_int w else '''') @ '' '' @ quarter)"

text \<open>The local \<open>formatted_num\<close> of the source, for a magnitude that is not \<open>None\<close>.\<close>

definition formatted_num :: "rat \<Rightarrow> string" where
  "formatted_num number =
     (let decimal = number - of_int (py_trunc number) in
      if decimal = 0 then str_of_int (py_trunc number)
      else if \<bar>decimal - 1 / 2\<bar> < 1 / 100 then whole_and (py_trunc number) ''1/2''
      else if \<bar>decimal - 1 / 4\<bar> < 1 / 100 then whole_and (py_trunc number) ''1/4''
      else if \<bar>decimal - 3 / 4\<bar> < 1 / 100 then whole_and (py_trunc number) ''3/4''
      else format_2f number)"

definition format_scaled_quantity :: "rat option \<Rightarrow> string \<Rightarrow> string" where
  "format_scaled_quantity number unit_str =
     (case number of
        None \<Rightarrow> unit_str
      | Some x \<Rightarrow> str_strip (formatted_num x @ '' '' @ unit_str))"

subsection \<open>The scaling factor and the ingredient loop\<close>

text \<open>
  Line 501, \<open>scaling_factor = new_servings / original_servings\<close>: true division of two
  integers, which raises on a zero divisor. Nothing else is checked.
\<close>

definition scaling_factor :: "int \<Rightarrow> int \<Rightarrow> py_error + rat" where
  "scaling_factor new_servings original_servings =
     (if original_servings = 0 then Inl ZeroDivisionError
      else Inr (of_int new_servings / of_int original_servings))"

text \<open>The body of the loop of lines 524-535 for one ingredient: the string displayed.\<close>

definition display_quantity :: "rat \<Rightarrow> string \<Rightarrow> py_error + string" where
  "display_quantity factor original_quantity_str =
     (case parse_quantity original_quantity_str of
        Inl e \<Rightarrow> Inl e
      | Inr (quantity, unit_str) \<Rightarrow>
          (case quantity of
             Some q \<Rightarrow>
               if factor \<noteq> 1 then Inr (format_scaled_quantity (Some (q * factor)) unit_str)
               else Inr original_quantity_str
           | None \<Rightarrow> Inr original_quantity_str))"

text \<open>
  The loop itself, over the (item, quantity) pairs of the recipe: it appends one
  markdown line per ingredient to the text built so far and stops at the first
  exception.
\<close>

fun ingredient_list_markdown :: "rat \<Rightarrow> string \<Rightarrow> (string \<times> string) list \<Rightarrow> py_error + string" where
  "ingredient_list_markdown factor acc [] = Inr acc"
| "ingredient_list_markdown factor acc ((item_name, quantity) # rest) =
     (case display_quantity factor quantity of
        Inl e \<Rightarrow> Inl e
      | Inr display_quantity_str \<Rightarrow>
          ingredient_list_markdown factor
            (acc @ ''- **'' @ item_name @ ''**: '' @ display_quantity_str @ [CHR 0x0A]) rest)"

subsection \<open>Forms of a numeric prefix\<close>

text \<open>
  A form is read from left to right without backtracking: every quantified class
  takes the longest run of its characters. \<open>scan_form\<close> returns the remainder of the
  string behind the form, \<open>scan_forms\<close> the prefix read by the first form of a list,
  in the order of the list, that can be read. This is the reading against which the
  properties below compare the backtracking matcher.
\<close>

fun scan_form :: "item list \<Rightarrow> string \<Rightarrow> string option" where
  "scan_form [] s = Some s"
| "scan_form (One k # is) s =
     (case s of [] \<Rightarrow> None | c # cs \<Rightarrow> if cls_ok k c then scan_form is cs else None)"
| "scan_form (Star k # is) s = scan_form is (dropWhile (cls_ok k) s)"
| "scan_form (Plus k # is) s =
     (if takeWhile (cls_ok k) s = [] then None else scan_form is (dropWhile (cls_ok k) s))"

fun scan_forms :: "item list list \<Rightarrow> string \<Rightarrow> string option" where
  "scan_forms [] s = None"
| "scan_forms (f # fs) s =
     (case scan_form f s of
        None \<Rightarrow> scan_forms fs s
      | Some r \<Rightarrow> Some (take (length s - length r) s))"

text \<open>
  The four forms in the words of the specification (section 4.1), in its priority
  order: a mixed number \<open><whole> <numerator>/<denominator>\<close> with whitespace between
  the whole and the fraction, a decimal \<open><digits>.<digits>\<close>, a simple fraction
  \<open><numerator>/<denominator>\<close> and a plain integer \<open><digits>\<close>.
\<close>

definition spec_forms :: "item list list" where
  "spec_forms =
     [[Plus Digit, Plus Space, Plus Digit, One (Lit (CHR ''/'')), Plus Digit],
      [Plus Digit, One (Lit (CHR ''.'')), Plus Digit],
      [Plus Digit, One (Lit (CHR ''/'')), Plus Digit],
      [Plus Digit]]"

text \<open>
  The forms of the amended claim C3: those of the specification with the digits before
  the point of a decimal made optional.
\<close>

definition amended_forms :: "item list list" where
  "amended_forms =
     [[Plus Digit, Plus Space, Plus Digit, One (Lit (CHR ''/'')), Plus Digit],
      [Star Digit, One (Lit (CHR ''.'')), Plus Digit],
      [Plus Digit, One (Lit (CHR ''/'')), Plus Digit],
      [Plus Digit]]"

text \<open>
  A whole number, whitespace and a fraction without numerator, as in \<open>"1 /2"\<close>: the
  prefix shape about which the amended claim C3 says nothing.
\<close>

definition bare_fraction_form :: "item list" where
  "bare_fraction_form = [Plus Digit, Plus Space, One (Lit (CHR ''/'')), Plus Digit]"

text \<open>A string without whitespace at either end (the empty string included).\<close>

definition no_outer_space :: "string \<Rightarrow> bool" where
  "no_outer_space s = (s = [] \<or> (\<not> is_space (hd s) \<and> \<not> is_space (last s)))"

text \<open>
  The strings with a numeric prefix, told by their first characters: a digit, or a
  point followed by a digit.
\<close>

definition starts_numeric :: "string \<Rightarrow> bool" where
  "starts_numeric t =
     (case t of
        [] \<Rightarrow> False
      | c # cs \<Rightarrow>
          is_digit c \<or> (c = CHR ''.'' \<and> (case cs of [] \<Rightarrow> False | d # _ \<Rightarrow> is_digit d)))"

section \<open>Properties\<close>

subsection \<open>The matcher on the pattern of the source\<close>

text \<open>
  The first success of the backtracking matcher is the end a longest-run scan reaches
  (for every sequence of items), and on the four alternatives of the source a match
  exists only where the scan succeeds: the characters that separate their runs,
  \<open>/\<close> and \<open>.\<close>, are neither digits nor whitespace, and no digit is whitespace.
\<close>

lemma star_ends_hd: "star_ends k s \<noteq> [] \<and> hd (star_ends k s) = dropWhile (cls_ok k) s"
  by (induction s) auto

lemma star_ends_self: "s \<in> set (star_ends k s)"
  by (cases s) auto

lemma star_ends_set: "r \<in> set (star_ends k s) \<longleftrightarrow> (\<exists>p. s = p @ r \<and> (\<forall>c \<in> set p. cls_ok k c))"
proof (induction s)
  case Nil
  then show ?case by auto
next
  case (Cons a s)
  show ?case
  proof (cases "cls_ok k a")
    case True
    show ?thesis
    proof
      assume "r \<in> set (star_ends k (a # s))"
      with True have "r \<in> set (star_ends k s) \<or> r = a # s" by auto
      then show "\<exists>p. a # s = p @ r \<and> (\<forall>c \<in> set p. cls_ok k c)"
      proof
        assume "r \<in> set (star_ends k s)"
        with Cons.IH obtain p where "s = p @ r" "\<forall>c \<in> set p. cls_ok k c" by blast
        with True have "a # s = (a # p) @ r \<and> (\<forall>c \<in> set (a # p). cls_ok k c)" by simp
        then show ?thesis by blast
      next
        assume "r = a # s"
        then have "a # s = [] @ r \<and> (\<forall>c \<in> set []. cls_ok k c)" by simp
        then show ?thesis by blast
      qed
    next
      assume "\<exists>p. a # s = p @ r \<and> (\<forall>c \<in> set p. cls_ok k c)"
      then obtain p where p: "a # s = p @ r" "\<forall>c \<in> set p. cls_ok k c" by blast
      show "r \<in> set (star_ends k (a # s))"
      proof (cases p)
        case Nil
        with p have "r = a # s" by simp
        then show ?thesis using star_ends_self [of r k] by simp
      next
        case (Cons b q)
        with p have "s = q @ r" "\<forall>c \<in> set q. cls_ok k c" by auto
        with Cons.IH have "r \<in> set (star_ends k s)" by blast
        with True show ?thesis by simp
      qed
    qed
  next
    case False
    show ?thesis
    proof
      assume "r \<in> set (star_ends k (a # s))"
      with False have "r = a # s" by simp
      then have "a # s = [] @ r \<and> (\<forall>c \<in> set []. cls_ok k c)" by simp
      then show "\<exists>p. a # s = p @ r \<and> (\<forall>c \<in> set p. cls_ok k c)" by blast
    next
      assume "\<exists>p. a # s = p @ r \<and> (\<forall>c \<in> set p. cls_ok k c)"
      then obtain p where p: "a # s = p @ r" "\<forall>c \<in> set p. cls_ok k c" by blast
      with False have "p = []" by (cases p) auto
      with p have "r = a # s" by simp
      then show "r \<in> set (star_ends k (a # s))" using star_ends_self [of r k] by simp
    qed
  qed
qed

lemma plus_ends_set:
  "r \<in> set (item_ends (Plus k) s) \<longleftrightarrow> (\<exists>p. s = p @ r \<and> p \<noteq> [] \<and> (\<forall>c \<in> set p. cls_ok k c))"
proof (cases s)
  case Nil
  then show ?thesis by simp
next
  case (Cons a t)
  show ?thesis
  proof
    assume "r \<in> set (item_ends (Plus k) s)"
    with Cons have a: "cls_ok k a" and "r \<in> set (star_ends k t)" by (auto split: if_splits)
    then obtain p where "t = p @ r" "\<forall>c \<in> set p. cls_ok k c" using star_ends_set by blast
    with a Cons have "s = (a # p) @ r \<and> a # p \<noteq> [] \<and> (\<forall>c \<in> set (a # p). cls_ok k c)" by simp
    then show "\<exists>p. s = p @ r \<and> p \<noteq> [] \<and> (\<forall>c \<in> set p. cls_ok k c)" by blast
  next
    assume "\<exists>p. s = p @ r \<and> p \<noteq> [] \<and> (\<forall>c \<in> set p. cls_ok k c)"
    then obtain p where p: "s = p @ r" "p \<noteq> []" "\<forall>c \<in> set p. cls_ok k c" by blast
    then obtain b q where bq: "p = b # q" by (cases p) auto
    with p Cons have "a = b" "t = q @ r" "cls_ok k a" "\<forall>c \<in> set q. cls_ok k c" by auto
    then have "cls_ok k a" "r \<in> set (star_ends k t)" using star_ends_set by blast+
    with Cons show "r \<in> set (item_ends (Plus k) s)" by simp
  qed
qed

lemma one_ends_set: "r \<in> set (item_ends (One k) s) \<longleftrightarrow> (\<exists>c. s = c # r \<and> cls_ok k c)"
  by (cases s) auto

lemma seq_ends_Cons_set:
  "r \<in> set (seq_ends (i # is) s) \<longleftrightarrow> (\<exists>m \<in> set (item_ends i s). r \<in> set (seq_ends is m))"
  by auto

lemma hd_concat_map:
  "xs \<noteq> [] \<Longrightarrow> f (hd xs) \<noteq> [] \<Longrightarrow> concat (map f xs) \<noteq> [] \<and> hd (concat (map f xs)) = hd (f (hd xs))"
  by (cases xs) auto

lemma item_ends_scan:
  "scan_form (i # is) s = Some r \<Longrightarrow>
     \<exists>m. item_ends i s \<noteq> [] \<and> hd (item_ends i s) = m \<and> scan_form is m = Some r"
proof (cases i)
  case (One k)
  assume "scan_form (i # is) s = Some r"
  with One show ?thesis by (cases s) (auto split: if_splits)
next
  case (Star k)
  assume "scan_form (i # is) s = Some r"
  with Star show ?thesis using star_ends_hd [of k s] by simp
next
  case (Plus k)
  assume a: "scan_form (i # is) s = Some r"
  with Plus obtain c cs where s: "s = c # cs" "cls_ok k c"
    by (cases s) (auto split: if_splits)
  with a Plus show ?thesis using star_ends_hd [of k cs] by simp
qed

lemma scan_form_first:
  "scan_form is s = Some r \<Longrightarrow> seq_ends is s \<noteq> [] \<and> hd (seq_ends is s) = r"
proof (induction "is" arbitrary: s)
  case Nil
  then show ?case by simp
next
  case (Cons i "is")
  from item_ends_scan [OF Cons.prems] obtain m where
    m: "item_ends i s \<noteq> []" "hd (item_ends i s) = m" "scan_form is m = Some r" by blast
  from Cons.IH [OF m(3)] have "seq_ends is m \<noteq> []" "hd (seq_ends is m) = r" by simp_all
  with m hd_concat_map [of "item_ends i s" "seq_ends is"] show ?case by simp
qed

lemma digit_not_space: "is_digit c \<Longrightarrow> \<not> is_space c"
  by (auto simp: is_digit_def is_space_def Let_def)

lemma slash_class [simp]: "\<not> is_digit (CHR ''/'')" "\<not> is_space (CHR ''/'')"
  by (simp_all add: is_digit_def is_space_def)

lemma point_class [simp]: "\<not> is_digit (CHR ''.'')" "\<not> is_space (CHR ''.'')"
  by (simp_all add: is_digit_def is_space_def)

lemma cls_ok_fun [simp]: "cls_ok Digit = is_digit" "cls_ok Space = is_space"
  by (rule ext, simp)+

lemma dropWhile_run: "\<forall>c \<in> set p. P c \<Longrightarrow> dropWhile P (p @ r) = dropWhile P r"
  by (induction p) auto

lemma takeWhile_run_nonempty: "p \<noteq> [] \<Longrightarrow> \<forall>c \<in> set p. P c \<Longrightarrow> takeWhile P (p @ r) \<noteq> []"
  by (cases p) auto

lemma mixed_complete:
  assumes "r \<in> set (seq_ends [Plus Digit, Star Space, Star Digit, One (Lit (CHR ''/'')), Plus Digit] s)"
  shows "scan_form [Plus Digit, Star Space, Star Digit, One (Lit (CHR ''/'')), Plus Digit] s \<noteq> None"
proof -
  from assms obtain m1 m2 m3 m4 where
    e1: "m1 \<in> set (item_ends (Plus Digit) s)" and
    e2: "m2 \<in> set (star_ends Space m1)" and
    e3: "m3 \<in> set (star_ends Digit m2)" and
    e4: "m4 \<in> set (item_ends (One (Lit (CHR ''/''))) m3)" and
    e5: "r \<in> set (item_ends (Plus Digit) m4)"
    by (auto simp del: item_ends.simps(1,3) simp add: seq_ends_Cons_set)
  from e1 obtain d1 where d1: "s = d1 @ m1" "d1 \<noteq> []" "\<forall>c \<in> set d1. is_digit c"
    unfolding plus_ends_set by auto
  from e2 obtain sp where sp: "m1 = sp @ m2" "\<forall>c \<in> set sp. is_space c"
    unfolding star_ends_set by auto
  from e3 obtain d2 where d2: "m2 = d2 @ m3" "\<forall>c \<in> set d2. is_digit c"
    unfolding star_ends_set by auto
  from e4 have m3: "m3 = CHR ''/'' # m4"
    unfolding one_ends_set by auto
  from e5 obtain d3 where d3: "m4 = d3 @ r" "d3 \<noteq> []" "\<forall>c \<in> set d3. is_digit c"
    unfolding plus_ends_set by auto
  have t1: "takeWhile is_digit s \<noteq> []"
    using d1 takeWhile_run_nonempty by blast
  have t5: "takeWhile is_digit m4 \<noteq> []"
    using d3 takeWhile_run_nonempty by blast
  have s3: "dropWhile is_digit m2 = m3"
    using d2 m3 by (simp add: dropWhile_run)
  have s2: "dropWhile is_space m2 = m2"
    using d2 m3 by (cases d2) (auto dest: digit_not_space)
  have s1: "dropWhile is_digit (dropWhile is_space (dropWhile is_digit s)) = m3"
  proof (cases sp)
    case Nil
    with sp d1 have "dropWhile is_digit s = dropWhile is_digit m2" by (simp add: dropWhile_run)
    with s3 m3 show ?thesis by simp
  next
    case (Cons a sp')
    with sp have "is_space a" by simp
    then have "\<not> is_digit a" using digit_not_space by blast
    with Cons sp d1 have "dropWhile is_digit s = sp @ m2" by (simp add: dropWhile_run)
    with sp s2 s3 show ?thesis by (simp add: dropWhile_run)
  qed
  show ?thesis
    using t1 t5 s1 m3 by simp
qed

lemma decimal_complete:
  assumes "r \<in> set (seq_ends [Star Digit, One (Lit (CHR ''.'')), Plus Digit] s)"
  shows "scan_form [Star Digit, One (Lit (CHR ''.'')), Plus Digit] s \<noteq> None"
proof -
  from assms obtain m1 m2 where
    e1: "m1 \<in> set (star_ends Digit s)" and
    e2: "m2 \<in> set (item_ends (One (Lit (CHR ''.''))) m1)" and
    e3: "r \<in> set (item_ends (Plus Digit) m2)"
    by (auto simp del: item_ends.simps(1,3) simp add: seq_ends_Cons_set)
  from e1 obtain d1 where d1: "s = d1 @ m1" "\<forall>c \<in> set d1. is_digit c"
    unfolding star_ends_set by auto
  from e2 have m1: "m1 = CHR ''.'' # m2"
    unfolding one_ends_set by auto
  from e3 obtain d2 where d2: "m2 = d2 @ r" "d2 \<noteq> []" "\<forall>c \<in> set d2. is_digit c"
    unfolding plus_ends_set by auto
  have "dropWhile is_digit s = m1"
    using d1 m1 by (simp add: dropWhile_run)
  moreover have "takeWhile is_digit m2 \<noteq> []"
    using d2 takeWhile_run_nonempty by blast
  ultimately show ?thesis
    using m1 by simp
qed

lemma fraction_complete:
  assumes "r \<in> set (seq_ends [Plus Digit, One (Lit (CHR ''/'')), Plus Digit] s)"
  shows "scan_form [Plus Digit, One (Lit (CHR ''/'')), Plus Digit] s \<noteq> None"
proof -
  from assms obtain m1 m2 where
    e1: "m1 \<in> set (item_ends (Plus Digit) s)" and
    e2: "m2 \<in> set (item_ends (One (Lit (CHR ''/''))) m1)" and
    e3: "r \<in> set (item_ends (Plus Digit) m2)"
    by (auto simp del: item_ends.simps(1,3) simp add: seq_ends_Cons_set)
  from e1 obtain d1 where d1: "s = d1 @ m1" "d1 \<noteq> []" "\<forall>c \<in> set d1. is_digit c"
    unfolding plus_ends_set by auto
  from e2 have m1: "m1 = CHR ''/'' # m2"
    unfolding one_ends_set by auto
  from e3 obtain d2 where d2: "m2 = d2 @ r" "d2 \<noteq> []" "\<forall>c \<in> set d2. is_digit c"
    unfolding plus_ends_set by auto
  have "dropWhile is_digit s = m1"
    using d1 m1 by (simp add: dropWhile_run)
  moreover have "takeWhile is_digit s \<noteq> []"
    using d1 takeWhile_run_nonempty by blast
  moreover have "takeWhile is_digit m2 \<noteq> []"
    using d2 takeWhile_run_nonempty by blast
  ultimately show ?thesis
    using m1 by simp
qed

lemma integer_complete:
  assumes "r \<in> set (seq_ends [Plus Digit] s)"
  shows "scan_form [Plus Digit] s \<noteq> None"
proof -
  from assms have "r \<in> set (item_ends (Plus Digit) s)"
    by (auto simp del: item_ends.simps(1,3) simp add: seq_ends_Cons_set)
  then obtain d1 where "s = d1 @ r" "d1 \<noteq> []" "\<forall>c \<in> set d1. is_digit c"
    unfolding plus_ends_set by auto
  then have "takeWhile is_digit s \<noteq> []"
    using takeWhile_run_nonempty by blast
  then show ?thesis by simp
qed

lemma re_match_Nil: "re_match [] s = None"
  by (simp add: re_match_def alt_ends_def)

lemma re_match_Cons:
  "re_match (f # fs) s =
     (case seq_ends f s of
        [] \<Rightarrow> re_match fs s
      | r # _ \<Rightarrow> Some (take (length s - length r) s))"
  by (simp add: re_match_def alt_ends_def split: list.splits)

lemma re_match_scan:
  assumes "\<And>f r. f \<in> set fs \<Longrightarrow> r \<in> set (seq_ends f s) \<Longrightarrow> scan_form f s \<noteq> None"
  shows "re_match fs s = scan_forms fs s"
  using assms
proof (induction fs)
  case Nil
  show ?case by (simp add: re_match_Nil)
next
  case (Cons f fs)
  have rest: "re_match fs s = scan_forms fs s"
    using Cons.IH Cons.prems by simp
  show ?case
  proof (cases "scan_form f s")
    case None
    have "seq_ends f s = []"
    proof (cases "seq_ends f s")
      case Nil
      then show ?thesis .
    next
      case (Cons r rs)
      then have "r \<in> set (seq_ends f s)" by simp
      with Cons.prems [of f r] None show ?thesis by simp
    qed
    with None rest show ?thesis by (simp add: re_match_Cons)
  next
    case (Some r)
    from scan_form_first [OF Some] obtain rs where "seq_ends f s = r # rs"
      by (cases "seq_ends f s") auto
    with Some show ?thesis by (simp add: re_match_Cons)
  qed
qed

lemma quantity_pattern_scan: "re_match quantity_pattern s = scan_forms quantity_pattern s"
proof (rule re_match_scan)
  fix f r
  assume "f \<in> set quantity_pattern" and r: "r \<in> set (seq_ends f s)"
  then consider
      "f = [Plus Digit, Star Space, Star Digit, One (Lit (CHR ''/'')), Plus Digit]"
    | "f = [Star Digit, One (Lit (CHR ''.'')), Plus Digit]"
    | "f = [Plus Digit, One (Lit (CHR ''/'')), Plus Digit]"
    | "f = [Plus Digit]"
    by (auto simp: quantity_pattern_def)
  then show "scan_form f s \<noteq> None"
  proof cases
    case 1
    with r show ?thesis using mixed_complete by blast
  next
    case 2
    with r show ?thesis using decimal_complete by blast
  next
    case 3
    with r show ?thesis using fraction_complete by blast
  next
    case 4
    with r show ?thesis using integer_complete by blast
  qed
qed

subsection \<open>Non-negative magnitudes\<close>

lemma py_float_nonneg: "py_float t = Some x \<Longrightarrow> 0 \<le> x"
  by (auto simp: py_float_def Let_def split: list.splits if_splits)

lemma int_ratio_nonneg: "int_ratio ps = Inr q \<Longrightarrow> 0 \<le> q"
  by (auto simp: int_ratio_def py_int_def Let_def split: list.splits option.splits if_splits)

lemma parse_quantity_magnitude_ge0: "parse_quantity s = Inr (Some q, u) \<Longrightarrow> 0 \<le> q"
  unfolding parse_quantity_def Let_def
  by (auto split: option.splits list.splits sum.splits if_splits
      dest!: py_float_nonneg int_ratio_nonneg)

text \<open>
  Claim C10. Whenever \<open>parse_quantity\<close> returns a magnitude that is not \<open>None\<close>, the
  magnitude is non-negative: the whole part and the numerator are read from runs of
  digits, the denominator is a positive number read from digits, and no branch
  subtracts.
\<close>

theorem parse_quantity_nonneg:
  "parse_quantity s = Inr (Some q, u) \<Longrightarrow> 0 \<le> q"
  by (rule parse_quantity_magnitude_ge0)

theorem parse_quantity_nonneg_witness:
  "parse_quantity ''1 1/2 cups'' = Inr (Some (3 / 2), ''cups'') \<and> (0 :: rat) \<le> 3 / 2"
proof -
  have p: "parse_quantity ''1 1/2 cups'' = Inr (Some (3 / 2), ''cups'')"
    by code_simp
  show ?thesis
    using p parse_quantity_nonneg [OF p] by simp
qed

subsection \<open>Faults of \<open>parse_quantity\<close>\<close>

text \<open>
  Claim C1 says that \<open>parse_quantity\<close> never raises and that \<open>"1/0"\<close> degrades to a
  \<open>None\<close> magnitude. The source guards only \<open>float(number_str)\<close> with
  \<open>try/except ValueError\<close>; the two fraction branches divide unguarded. On \<open>"1/0"\<close>
  the first alternative of the pattern matches the whole string, the \<open>elif\<close> branch
  is taken and \<open>1 / 0\<close> raises \<open>ZeroDivisionError\<close>.
\<close>

theorem parse_quantity_zero_denominator_raises:
  "parse_quantity ''1/0'' = Inl ZeroDivisionError"
  by code_simp

subsection \<open>The integer branch of the formatter\<close>

text \<open>
  Claim C2 says that a fractional part within 0.01 of 0 is rendered as the integer
  part alone. The source tests \<open>decimal == 0.0\<close> exactly, while its three sibling
  branches use \<open>abs(decimal - q) < 0.01\<close>: the magnitude 1.004 has the fractional
  part 0.004, misses the integer branch and the quarter branches, and is printed with
  two decimals.
\<close>

theorem format_near_integer_two_decimals:
  "format_scaled_quantity (Some (251 / 250)) ''cup'' = ''1.00 cup''"
  by code_simp

subsection \<open>The scaling factor\<close>

text \<open>
  Claim C5 says that zero or negative servings are rejected. The source divides
  without any check: with \<open>original_servings = -2\<close> and \<open>new_servings = 2\<close> the factor
  \<open>-1\<close> is returned and used.
\<close>

theorem scaling_factor_negative_counterexample:
  "(-2 :: int) \<le> 0 \<and> scaling_factor 2 (-2) = Inr (-1)"
  by (simp add: scaling_factor_def)

text \<open>
  Claim C5 as amended. The only failure of the computation of the scaling factor is
  the \<open>ZeroDivisionError\<close> of a zero \<open>original_servings\<close>. For every other pair of
  servings, of any sign, the quotient is returned, and it is positive exactly when
  both servings are positive or both are negative.
\<close>

theorem scaling_factor_rejects_only_zero:
  "((\<exists>e. scaling_factor n d = Inl e) = (d = 0)) \<and>
   (scaling_factor n 0 = Inl ZeroDivisionError) \<and>
   (d \<noteq> 0 \<longrightarrow> scaling_factor n d = Inr (of_int n / of_int d) \<and>
      ((0 :: rat) < of_int n / of_int d) = (0 < n \<and> 0 < d \<or> n < 0 \<and> d < 0))"
  by (auto simp: scaling_factor_def zero_less_divide_iff)

theorem scaling_factor_rejects_only_zero_witness:
  "(\<exists>e. scaling_factor 3 0 = Inl e) \<and> scaling_factor 2 (-2) = Inr (-1) \<and>
   scaling_factor 8 4 = Inr 2"
  using scaling_factor_rejects_only_zero [of 3 0] scaling_factor_rejects_only_zero [of 2 "-2"]
    scaling_factor_rejects_only_zero [of 8 4]
  by simp

subsection \<open>Passthrough in the ingredient loop\<close>

text \<open>
  Whenever \<open>parse_quantity\<close> returns, a magnitude \<open>None\<close> or a scale factor of 1 makes
  the loop display the original quantity string itself, with its casing and spacing;
  the formatter is not called.
\<close>

lemma display_quantity_passthrough:
  assumes "parse_quantity s = Inr (q, u)" and "q = None \<or> factor = 1"
  shows "display_quantity factor s = Inr s"
  using assms by (auto simp: display_quantity_def split: option.splits)

text \<open>
  Claim C6 says that for every ingredient a scale factor of 1 displays the original
  string unchanged. The loop calls \<open>parse_quantity\<close> (line 527) before it tests the
  factor (line 529), so the unguarded division of claim C1 reaches it: for the
  quantity \<open>"1/0"\<close> at the factor 1 nothing is displayed, the \<open>ZeroDivisionError\<close>
  leaves the loop.
\<close>

theorem display_quantity_raises_at_factor_one:
  "display_quantity 1 ''1/0'' = Inl ZeroDivisionError \<and>
   ingredient_list_markdown 1 [] [(''flour'', ''1/0'')] = Inl ZeroDivisionError"
  by code_simp

subsection \<open>Test vectors of the parser\<close>

text \<open>
  Claim C7. \<open>parse_quantity\<close> on the three vectors of the specification:
  \<open>"1 1/2 cups"\<close> gives 1.5 and \<open>"cups"\<close>, \<open>"500g"\<close> gives 500 and \<open>"g"\<close>, and
  \<open>"2/3 cup"\<close> gives two thirds, which is within 0.0001 of 0.6667, and \<open>"cup"\<close>.
\<close>

theorem parse_quantity_vectors:
  "parse_quantity ''1 1/2 cups'' = Inr (Some (3 / 2), ''cups'') \<and>
   parse_quantity ''500g'' = Inr (Some 500, ''g'') \<and>
   parse_quantity ''2/3 cup'' = Inr (Some (2 / 3), ''cup'') \<and>
   \<bar>(2 / 3 :: rat) - 6667 / 10000\<bar> < 1 / 10000"
  by code_simp

subsection \<open>Characters, digit strings and stripping\<close>

lemma is_digit_char_of: "(n :: nat) < 10 \<Longrightarrow> is_digit (char_of (48 + n))"
  by (simp add: is_digit_def)

lemma digit_val_char_of: "(n :: nat) < 10 \<Longrightarrow> digit_val (char_of (48 + n)) = n"
  by (simp add: digit_val_def)

lemma space_class [simp]: "is_space (CHR '' '')" "\<not> is_digit (CHR '' '')"
  by (simp_all add: is_digit_def is_space_def)

lemma minus_class [simp]: "\<not> is_digit (CHR ''-'')" "\<not> is_space (CHR ''-'')"
  by (simp_all add: is_digit_def is_space_def)

lemma lower_char_digit: "is_digit c \<Longrightarrow> lower_char c = c"
  by (auto simp: is_digit_def lower_char_def Let_def)

lemma lower_char_space: "is_space c \<Longrightarrow> lower_char c = c"
  by (auto simp: is_space_def lower_char_def Let_def)

lemma lower_char_idem: "lower_char (lower_char c) = lower_char c"
  by (auto simp: lower_char_def Let_def)

lemma lower_char_punct [simp]: "lower_char (CHR ''/'') = CHR ''/''" "lower_char (CHR ''.'') = CHR ''.''"
  by (simp_all add: lower_char_def)

lemma str_of_nat_digits: "str_of_nat n \<noteq> [] \<and> (\<forall>c \<in> set (str_of_nat n). is_digit c)"
proof (induction n rule: str_of_nat.induct)
  case (1 n)
  show ?case
  proof (cases "n < 10")
    case True
    then show ?thesis by (simp add: str_of_nat.simps [of n] is_digit_char_of)
  next
    case False
    have "n mod 10 < 10" by simp
    with False 1 show ?thesis
      by (simp add: str_of_nat.simps [of n] is_digit_char_of)
  qed
qed

lemma digits_val_snoc: "digits_val (a @ [c]) = 10 * digits_val a + digit_val c"
  by (simp add: digits_val_def)

lemma digits_val_str_of_nat: "digits_val (str_of_nat n) = n"
proof (induction n rule: str_of_nat.induct)
  case (1 n)
  show ?case
  proof (cases "n < 10")
    case True
    then show ?thesis
      by (simp add: str_of_nat.simps [of n] digits_val_def digit_val_char_of)
  next
    case False
    have "n mod 10 < 10" by simp
    then have "digit_val (char_of (48 + n mod 10)) = n mod 10" by (rule digit_val_char_of)
    with False 1 show ?thesis
      by (simp add: str_of_nat.simps [of n] digits_val_snoc)
  qed
qed

lemma rstrip_keep: "s \<noteq> [] \<Longrightarrow> \<not> is_space (last s) \<Longrightarrow> str_rstrip s = s"
proof -
  assume "s \<noteq> []" "\<not> is_space (last s)"
  then have "rev s \<noteq> []" "\<not> is_space (hd (rev s))" by (simp_all add: hd_rev)
  then have "dropWhile is_space (rev s) = rev s" by (cases "rev s") auto
  then show ?thesis by (simp add: str_rstrip_def)
qed

lemma lstrip_keep: "s \<noteq> [] \<Longrightarrow> \<not> is_space (hd s) \<Longrightarrow> str_lstrip s = s"
  by (cases s) (auto simp: str_lstrip_def)

lemma strip_keep: "no_outer_space s \<Longrightarrow> str_strip s = s"
  by (cases "s = []")
     (auto simp: no_outer_space_def str_strip_def lstrip_keep rstrip_keep, simp add: str_lstrip_def str_rstrip_def)

lemma num_space_is_space: "is_num_space c \<Longrightarrow> is_space c"
  by (auto simp: is_num_space_def is_space_def Let_def)

lemma num_strip_keep: "no_outer_space s \<Longrightarrow> num_strip s = s"
proof (cases "s = []")
  case True
  then show ?thesis by (simp add: num_strip_def)
next
  case False
  assume "no_outer_space s"
  with False have h: "\<not> is_num_space (hd s)" and l: "\<not> is_num_space (last s)"
    using num_space_is_space by (auto simp: no_outer_space_def)
  from False h have "dropWhile is_num_space s = s" by (cases s) auto
  moreover from False l have "dropWhile is_num_space (rev s) = rev s"
    by (cases "rev s") (auto simp: last_rev [symmetric] hd_rev)
  ultimately show ?thesis by (simp add: num_strip_def)
qed

lemma rstrip_clean: "str_rstrip s = [] \<or> \<not> is_space (last (str_rstrip s))"
proof -
  have "dropWhile is_space (rev s) = [] \<or> \<not> is_space (hd (dropWhile is_space (rev s)))"
    using hd_dropWhile [of is_space "rev s"] by blast
  then show ?thesis
    by (auto simp: str_rstrip_def last_rev)
qed

lemma rstrip_prefix: "\<exists>w. s = str_rstrip s @ w \<and> (\<forall>c \<in> set w. is_space c)"
proof -
  have "rev s = takeWhile is_space (rev s) @ dropWhile is_space (rev s)" by simp
  then have "s = rev (dropWhile is_space (rev s)) @ rev (takeWhile is_space (rev s))"
    by (metis rev_append rev_rev_ident)
  moreover have "\<forall>c \<in> set (rev (takeWhile is_space (rev s))). is_space c"
    by (auto dest: set_takeWhileD)
  ultimately show ?thesis unfolding str_rstrip_def by blast
qed

lemma rstrip_hd: "str_rstrip s \<noteq> [] \<Longrightarrow> hd (str_rstrip s) = hd s"
proof -
  assume a: "str_rstrip s \<noteq> []"
  from rstrip_prefix obtain w where "s = str_rstrip s @ w" by blast
  then have "hd s = hd (str_rstrip s @ w)" by simp
  with a show ?thesis by simp
qed

lemma strip_clean: "no_outer_space (str_strip s)"
proof (cases "str_strip s = []")
  case True
  then show ?thesis by (simp add: no_outer_space_def)
next
  case False
  then have l: "str_lstrip s \<noteq> []"
    by (auto simp: str_strip_def str_rstrip_def)
  then have "\<not> is_space (hd (str_lstrip s))"
    unfolding str_lstrip_def using hd_dropWhile by blast
  with False have "\<not> is_space (hd (str_strip s))"
    by (simp add: str_strip_def rstrip_hd)
  moreover from False have "\<not> is_space (last (str_strip s))"
    using rstrip_clean [of "str_lstrip s"] by (simp add: str_strip_def)
  ultimately show ?thesis by (simp add: no_outer_space_def)
qed

lemma strip_subset: "set (str_strip s) \<subseteq> set s"
proof -
  have "set (str_rstrip t) \<subseteq> set t" for t
    unfolding str_rstrip_def using set_dropWhileD [of _ is_space "rev t"] by auto
  moreover have "set (str_lstrip s) \<subseteq> set s"
    unfolding str_lstrip_def using set_dropWhileD by fastforce
  ultimately show ?thesis unfolding str_strip_def by blast
qed

lemma no_outer_space_append:
  "a \<noteq> [] \<Longrightarrow> b \<noteq> [] \<Longrightarrow> no_outer_space a \<Longrightarrow> no_outer_space b \<Longrightarrow> no_outer_space (a @ m @ b)"
  by (simp add: no_outer_space_def)

lemma strip_number_space: "a \<noteq> [] \<Longrightarrow> no_outer_space a \<Longrightarrow> str_strip (a @ '' '') = a"
proof -
  assume a: "a \<noteq> []" "no_outer_space a"
  then have "str_lstrip (a @ '' '') = a @ '' ''"
    by (simp add: lstrip_keep no_outer_space_def)
  moreover have "str_rstrip (a @ '' '') = str_rstrip a"
    by (simp add: str_rstrip_def)
  ultimately show ?thesis using a by (simp add: str_strip_def rstrip_keep no_outer_space_def)
qed

subsection \<open>The shape of the formatted number\<close>

lemma strip_nonempty: "s \<noteq> [] \<Longrightarrow> \<not> is_space (last s) \<Longrightarrow> str_strip s \<noteq> []"
proof -
  assume a: "s \<noteq> []" "\<not> is_space (last s)"
  then have "last s \<in> set s" by simp
  with a have l: "dropWhile is_space s \<noteq> []"
    by (auto simp: dropWhile_eq_Nil_conv)
  then have "last (dropWhile is_space s) = last s"
    by (metis last_appendR takeWhile_dropWhile_id)
  with a l have "str_rstrip (str_lstrip s) = str_lstrip s"
    by (simp add: str_lstrip_def rstrip_keep)
  with l show ?thesis by (simp add: str_strip_def str_lstrip_def)
qed

lemma digits_clean: "d \<noteq> [] \<Longrightarrow> \<forall>c \<in> set d. is_digit c \<Longrightarrow> no_outer_space d"
  by (auto simp: no_outer_space_def dest: digit_not_space)

lemma str_of_nat_clean: "no_outer_space (str_of_nat n)"
  using str_of_nat_digits [of n] digits_clean by blast

lemma str_of_int_clean: "str_of_int i \<noteq> [] \<and> no_outer_space (str_of_int i)"
proof (cases "i < 0")
  case True
  have "last (str_of_nat (nat (- i))) \<in> set (str_of_nat (nat (- i)))"
    using str_of_nat_digits by simp
  then have "\<not> is_space (last (str_of_nat (nat (- i))))"
    using str_of_nat_digits digit_not_space by blast
  with True show ?thesis
    using str_of_nat_digits [of "nat (- i)"] by (simp add: str_of_int_def no_outer_space_def)
next
  case False
  then show ?thesis
    using str_of_nat_digits [of "nat i"] str_of_nat_clean [of "nat i"] by (simp add: str_of_int_def)
qed

lemma whole_and_clean:
  "q \<noteq> [] \<Longrightarrow> \<not> is_space (last q) \<Longrightarrow> whole_and w q \<noteq> [] \<and> no_outer_space (whole_and w q)"
  unfolding whole_and_def using strip_nonempty strip_clean by simp

lemma format_2f_clean: "format_2f x \<noteq> [] \<and> no_outer_space (format_2f x)"
proof -
  define h where "h = round_half_even (\<bar>x\<bar> * 100)"
  have d: "\<not> is_space (char_of (48 + h mod 10))"
    using is_digit_char_of [of "h mod 10"] digit_not_space by simp
  have f: "\<not> is_space (hd (str_of_nat (h div 100)))"
    using str_of_nat_digits [of "h div 100"] digit_not_space
    by (metis hd_in_set)
  have n: "str_of_nat (h div 100) \<noteq> []"
    using str_of_nat_digits by simp
  show ?thesis
    using d f n unfolding format_2f_def Let_def h_def [symmetric] no_outer_space_def
    by simp
qed

lemma formatted_num_clean: "formatted_num x \<noteq> [] \<and> no_outer_space (formatted_num x)"
  unfolding formatted_num_def Let_def
  using str_of_int_clean format_2f_clean whole_and_clean [of "''1/2''"]
    whole_and_clean [of "''1/4''"] whole_and_clean [of "''3/4''"]
  by (simp add: is_space_def)

lemma format_unit_empty: "format_scaled_quantity (Some m) [] = formatted_num m"
  using formatted_num_clean [of m] by (simp add: format_scaled_quantity_def strip_number_space)

lemma format_unit_clean:
  assumes "u \<noteq> []" and "no_outer_space u"
  shows "format_scaled_quantity (Some m) u = formatted_num m @ '' '' @ u"
proof -
  have "no_outer_space (formatted_num m @ '' '' @ u)"
    using assms formatted_num_clean [of m] by (intro no_outer_space_append) simp_all
  then show ?thesis
    by (simp add: format_scaled_quantity_def strip_keep)
qed

subsection \<open>Test vectors and the join of the formatter\<close>

text \<open>
  Claim C9. \<open>format_scaled_quantity\<close> on the four vectors of the specification gives
  \<open>"1 cup"\<close>, \<open>"1/2 cup"\<close> (no leading space), \<open>"1 1/2 cup"\<close> and \<open>"0.33 cup"\<close>. For every
  magnitude and unit the formatted number is not empty and the output has no
  whitespace at either end; with an empty unit the output is the formatted number
  alone, and with a non-empty unit without outer whitespace (as \<open>parse_quantity\<close>
  delivers it) the output is the number, one space, and the unit.
\<close>

theorem format_scaled_quantity_join:
  "format_scaled_quantity (Some 1) ''cup'' = ''1 cup'' \<and>
   format_scaled_quantity (Some (1 / 2)) ''cup'' = ''1/2 cup'' \<and>
   format_scaled_quantity (Some (3 / 2)) ''cup'' = ''1 1/2 cup'' \<and>
   format_scaled_quantity (Some (33 / 100)) ''cup'' = ''0.33 cup'' \<and>
   formatted_num m \<noteq> [] \<and>
   no_outer_space (format_scaled_quantity (Some m) u) \<and>
   format_scaled_quantity (Some m) [] = formatted_num m \<and>
   (u \<noteq> [] \<and> no_outer_space u \<longrightarrow>
      format_scaled_quantity (Some m) u = formatted_num m @ '' '' @ u)"
proof -
  have v: "format_scaled_quantity (Some 1) ''cup'' = ''1 cup'' \<and>
   format_scaled_quantity (Some (1 / 2)) ''cup'' = ''1/2 cup'' \<and>
   format_scaled_quantity (Some (3 / 2)) ''cup'' = ''1 1/2 cup'' \<and>
   format_scaled_quantity (Some (33 / 100)) ''cup'' = ''0.33 cup''"
    by code_simp
  have c: "no_outer_space (format_scaled_quantity (Some m) u)"
    by (simp add: format_scaled_quantity_def strip_clean)
  show ?thesis
    using v c formatted_num_clean [of m] format_unit_empty [of m] format_unit_clean [of u m]
    by simp
qed

theorem format_scaled_quantity_join_witness:
  "format_scaled_quantity (Some (7 / 3)) ''cups flour'' = formatted_num (7 / 3) @ '' cups flour'' \<and>
   format_scaled_quantity (Some (7 / 3)) ''cups flour'' = ''2.33 cups flour''"
proof -
  have u: "''cups flour'' \<noteq> [] \<and> no_outer_space ''cups flour''" by code_simp
  have n: "formatted_num (7 / 3) = ''2.33''" by code_simp
  from format_scaled_quantity_join [of "7 / 3" "''cups flour''"] u n
  show ?thesis by simp
qed

subsection \<open>Parsing what the formatter writes\<close>

text \<open>
  The formatter writes a number in one of four shapes: a run of digits, a run of digits
  with a quarter behind one space, a quarter alone, or digits with a point and two
  decimals. The lemmas of this section read each shape back with \<open>parse_quantity\<close>,
  when it is followed by nothing or by one space and a unit.
\<close>

lemma parse_unit_props:
  assumes "parse_quantity s = Inr (Some m, u)"
  shows "no_outer_space u \<and> (\<forall>c \<in> set u. lower_char c = c)"
proof -
  define t where "t = str_lower (str_strip s)"
  from assms obtain k where u: "u = str_strip (drop k t)"
    unfolding parse_quantity_def Let_def t_def [symmetric]
    by (auto split: option.splits list.splits sum.splits if_splits)
  have "set u \<subseteq> set t"
    using u strip_subset [of "drop k t"] set_drop_subset [of k t] by blast
  moreover have "\<forall>c \<in> set t. lower_char c = c"
    by (auto simp: t_def str_lower_def lower_char_idem)
  ultimately show ?thesis
    using u strip_clean by blast
qed

lemma parse_quantity_plain:
  assumes "str_lower (str_strip raw) = X" and "re_match quantity_pattern X = Some num"
    and "str_strip num = num" and "str_strip (drop (length num) X) = u"
    and "CHR ''/'' \<notin> set num" and "py_float num = Some x"
  shows "parse_quantity raw = Inr (Some x, u)"
  using assms by (simp add: parse_quantity_def Let_def)

lemma parse_quantity_fraction:
  assumes "str_lower (str_strip raw) = X" and "re_match quantity_pattern X = Some num"
    and "str_strip num = num" and "str_strip (drop (length num) X) = u"
    and "CHR '' '' \<notin> set num" and "CHR ''/'' \<in> set num"
    and "int_ratio (str_split_sep (CHR ''/'') num) = Inr q"
  shows "parse_quantity raw = Inr (Some q, u)"
  using assms by (simp add: parse_quantity_def Let_def)

lemma parse_quantity_mixed:
  assumes "str_lower (str_strip raw) = X" and "re_match quantity_pattern X = Some num"
    and "str_strip num = num" and "str_strip (drop (length num) X) = u"
    and "CHR '' '' \<in> set num" and "CHR ''/'' \<in> set num"
    and "str_split num = [p0, p1]" and "py_float p0 = Some w"
    and "int_ratio (str_split_sep (CHR ''/'') p1) = Inr q"
  shows "parse_quantity raw = Inr (Some (w + q), u)"
  using assms by (simp add: parse_quantity_def Let_def)

lemma dropWhile_stop: "r = [] \<or> \<not> P (hd r) \<Longrightarrow> dropWhile P r = r"
  by (cases r) auto

lemma dropWhile_run_stop:
  "\<forall>c \<in> set d. P c \<Longrightarrow> r = [] \<or> \<not> P (hd r) \<Longrightarrow> dropWhile P (d @ r) = r"
  by (simp add: dropWhile_run dropWhile_stop)

lemma takeWhile_run_stop:
  "\<forall>c \<in> set d. P c \<Longrightarrow> r = [] \<or> \<not> P (hd r) \<Longrightarrow> takeWhile P (d @ r) = d"
  by (cases r) (auto simp: takeWhile_append2 takeWhile_eq_all_conv)

lemma py_float_digits:
  assumes "d \<noteq> []" and "\<forall>c \<in> set d. is_digit c"
  shows "py_float d = Some (of_nat (digits_val d))"
proof -
  have st: "num_strip d = d" using assms digits_clean num_strip_keep by blast
  have tw: "takeWhile is_digit d = d" using assms by (simp add: takeWhile_eq_all_conv)
  have dw: "dropWhile is_digit d = []" using assms by simp
  show ?thesis
    unfolding py_float_def Let_def st tw dw using assms by simp
qed

lemma py_float_decimal:
  assumes "d \<noteq> []" and "\<forall>c \<in> set d. is_digit c" and "\<forall>c \<in> set e. is_digit c" and "e \<noteq> []"
  shows "py_float (d @ CHR ''.'' # e) =
    Some (of_nat (digits_val d) + of_nat (digits_val e) / 10 ^ length e)"
proof -
  have "no_outer_space (d @ CHR ''.'' # e)"
    using assms by (cases d) (auto simp: no_outer_space_def dest: digit_not_space)
  then have st: "num_strip (d @ CHR ''.'' # e) = d @ CHR ''.'' # e" by (rule num_strip_keep)
  have tw: "takeWhile is_digit (d @ CHR ''.'' # e) = d"
    using assms by (simp add: takeWhile_run_stop)
  have dw: "dropWhile is_digit (d @ CHR ''.'' # e) = CHR ''.'' # e"
    using assms by (simp add: dropWhile_run_stop)
  show ?thesis
    unfolding py_float_def Let_def st tw dw using assms by (simp add: list_all_iff)
qed

lemma py_int_digits:
  assumes "d \<noteq> []" and "\<forall>c \<in> set d. is_digit c"
  shows "py_int d = Some (int (digits_val d))"
proof -
  have "num_strip d = d" using assms digits_clean num_strip_keep by blast
  then show ?thesis using assms by (simp add: py_int_def Let_def list_all_iff)
qed

lemma norm_keep:
  "no_outer_space X \<Longrightarrow> \<forall>c \<in> set X. lower_char c = c \<Longrightarrow> str_lower (str_strip X) = X"
  by (simp add: strip_keep str_lower_def map_idI)

lemma rest_facts:
  assumes "no_outer_space u" and "rest = (if u = [] then [] else CHR '' '' # u)"
  shows "rest = [] \<or> \<not> is_digit (hd rest)"
    and "rest = [] \<or> hd rest \<noteq> CHR ''.''"
    and "rest = [] \<or> hd rest \<noteq> CHR ''/''"
    and "dropWhile is_space rest = u"
    and "str_strip rest = u"
proof -
  show "rest = [] \<or> \<not> is_digit (hd rest)" using assms by simp
  show "rest = [] \<or> hd rest \<noteq> CHR ''.''" using assms by simp
  show "rest = [] \<or> hd rest \<noteq> CHR ''/''" using assms by simp
  show d: "dropWhile is_space rest = u"
    using assms by (cases u) (auto simp: no_outer_space_def)
  have "str_rstrip u = u"
  proof (cases "u = []")
    case True
    then show ?thesis by (simp add: str_rstrip_def)
  next
    case False
    with assms(1) show ?thesis by (simp add: no_outer_space_def rstrip_keep)
  qed
  with d show "str_strip rest = u"
    by (simp add: str_strip_def str_lstrip_def)
qed

lemma one_stop: "r = [] \<or> hd r \<noteq> c \<Longrightarrow> scan_form (One (Lit c) # is) r = None"
  by (cases r) auto

lemma take_prefix: "take (length (p @ r) - length r) (p @ r) = p"
  by simp

lemma scan_integer_shape:
  assumes D: "D \<noteq> []" "\<forall>c \<in> set D. is_digit c"
    and u: "no_outer_space u" "u = [] \<or> (\<not> is_digit (hd u) \<and> hd u \<noteq> CHR ''/'')"
    and rest: "rest = (if u = [] then [] else CHR '' '' # u)"
  shows "scan_forms quantity_pattern (D @ rest) = Some D"
proof -
  note r = rest_facts [OF u(1) rest]
  have t: "takeWhile is_digit (D @ rest) \<noteq> []"
    using D takeWhile_run_nonempty by blast
  have d: "dropWhile is_digit (D @ rest) = rest"
    using D(2) r(1) by (rule dropWhile_run_stop)
  have du: "dropWhile is_digit u = u"
    using u(2) by (intro dropWhile_stop) auto
  have m: "scan_form [Plus Digit, Star Space, Star Digit, One (Lit (CHR ''/'')), Plus Digit]
      (D @ rest) = None"
  proof -
    have "scan_form [Plus Digit, Star Space, Star Digit, One (Lit (CHR ''/'')), Plus Digit]
        (D @ rest) =
      scan_form [One (Lit (CHR ''/'')), Plus Digit]
        (dropWhile is_digit (dropWhile is_space (dropWhile is_digit (D @ rest))))"
      using t by simp
    also have "\<dots> = scan_form [One (Lit (CHR ''/'')), Plus Digit] u"
      unfolding d r(4) du ..
    also have "\<dots> = None"
    proof (rule one_stop)
      show "u = [] \<or> hd u \<noteq> CHR ''/''" using u(2) by blast
    qed
    finally show ?thesis .
  qed
  have e: "scan_form [Star Digit, One (Lit (CHR ''.'')), Plus Digit] (D @ rest) = None"
  proof -
    have "scan_form [Star Digit, One (Lit (CHR ''.'')), Plus Digit] (D @ rest) =
      scan_form [One (Lit (CHR ''.'')), Plus Digit] (dropWhile is_digit (D @ rest))"
      by simp
    also have "\<dots> = None"
      unfolding d using r(2) by (rule one_stop)
    finally show ?thesis .
  qed
  have f: "scan_form [Plus Digit, One (Lit (CHR ''/'')), Plus Digit] (D @ rest) = None"
  proof -
    have "scan_form [Plus Digit, One (Lit (CHR ''/'')), Plus Digit] (D @ rest) =
      scan_form [One (Lit (CHR ''/'')), Plus Digit] (dropWhile is_digit (D @ rest))"
      using t by simp
    also have "\<dots> = None"
      unfolding d using r(3) by (rule one_stop)
    finally show ?thesis .
  qed
  have i: "scan_form [Plus Digit] (D @ rest) = Some rest"
  proof -
    have "scan_form [Plus Digit] (D @ rest) = Some (dropWhile is_digit (D @ rest))"
      using t by simp
    then show ?thesis unfolding d .
  qed
  show ?thesis
    unfolding quantity_pattern_def scan_forms.simps m e f i
    by (simp only: option.case take_prefix)
qed

lemma scan_mixed_shape:
  assumes D: "D \<noteq> []" "\<forall>c \<in> set D. is_digit c"
    and ab: "is_digit a" "is_digit b"
    and u: "no_outer_space u"
    and rest: "rest = (if u = [] then [] else CHR '' '' # u)"
  shows "scan_forms quantity_pattern ((D @ CHR '' '' # [a, CHR ''/'', b]) @ rest)
     = Some (D @ CHR '' '' # [a, CHR ''/'', b])"
proof -
  note r = rest_facts [OF u rest]
  let ?X = "(D @ CHR '' '' # [a, CHR ''/'', b]) @ rest"
  have X: "?X = D @ (CHR '' '' # a # CHR ''/'' # b # rest)" by simp
  have t: "takeWhile is_digit ?X \<noteq> []"
    unfolding X using D takeWhile_run_nonempty by blast
  have d: "dropWhile is_digit ?X = CHR '' '' # a # CHR ''/'' # b # rest"
    unfolding X using D by (intro dropWhile_run_stop) auto
  have s: "\<not> is_space a" using ab digit_not_space by blast
  have b: "dropWhile is_digit (b # rest) = rest"
    using r(1) ab dropWhile_stop [of rest is_digit] by simp
  have m: "scan_form [Plus Digit, Star Space, Star Digit, One (Lit (CHR ''/'')), Plus Digit] ?X
     = Some rest"
    using t d s ab b by simp
  show ?thesis
    unfolding quantity_pattern_def scan_forms.simps m
    by (simp only: option.case take_prefix)
qed

lemma scan_fraction_shape:
  assumes ab: "is_digit a" "is_digit b"
    and u: "no_outer_space u"
    and rest: "rest = (if u = [] then [] else CHR '' '' # u)"
  shows "scan_forms quantity_pattern ([a, CHR ''/'', b] @ rest) = Some [a, CHR ''/'', b]"
proof -
  note r = rest_facts [OF u rest]
  have b: "dropWhile is_digit (b # rest) = rest"
    using r(1) ab dropWhile_stop [of rest is_digit] by simp
  have m: "scan_form [Plus Digit, Star Space, Star Digit, One (Lit (CHR ''/'')), Plus Digit]
     ([a, CHR ''/'', b] @ rest) = Some rest"
    using ab b by simp
  show ?thesis
    unfolding quantity_pattern_def scan_forms.simps m
    by (simp only: option.case take_prefix)
qed

lemma scan_decimal_shape:
  assumes D: "D \<noteq> []" "\<forall>c \<in> set D. is_digit c"
    and ab: "is_digit a" "is_digit b"
    and u: "no_outer_space u"
    and rest: "rest = (if u = [] then [] else CHR '' '' # u)"
  shows "scan_forms quantity_pattern ((D @ CHR ''.'' # [a, b]) @ rest) = Some (D @ CHR ''.'' # [a, b])"
proof -
  note r = rest_facts [OF u rest]
  let ?X = "(D @ CHR ''.'' # [a, b]) @ rest"
  have X: "?X = D @ (CHR ''.'' # a # b # rest)" by simp
  have t: "takeWhile is_digit ?X \<noteq> []"
    unfolding X using D takeWhile_run_nonempty by blast
  have d: "dropWhile is_digit ?X = CHR ''.'' # a # b # rest"
    unfolding X using D by (intro dropWhile_run_stop) auto
  have b: "dropWhile is_digit (a # b # rest) = rest"
    using r(1) ab dropWhile_stop [of rest is_digit] by simp
  have m: "scan_form [Plus Digit, Star Space, Star Digit, One (Lit (CHR ''/'')), Plus Digit] ?X
     = None"
    using t d by simp
  have e: "scan_form [Star Digit, One (Lit (CHR ''.'')), Plus Digit] ?X = Some rest"
    using d ab b by simp
  show ?thesis
    unfolding quantity_pattern_def scan_forms.simps m e
    by (simp only: option.case take_prefix)
qed

lemma digit_not_punct: "is_digit c \<Longrightarrow> c \<noteq> CHR ''/'' \<and> c \<noteq> CHR '' '' \<and> c \<noteq> CHR ''.''"
  by (auto simp: is_digit_def)

lemma shape_frame:
  assumes num: "num \<noteq> []" "no_outer_space num" "\<forall>c \<in> set num. lower_char c = c"
    and u: "no_outer_space u" "\<forall>c \<in> set u. lower_char c = c"
    and rest: "rest = (if u = [] then [] else CHR '' '' # u)"
  shows "str_lower (str_strip (num @ rest)) = num @ rest"
    and "str_strip num = num"
    and "str_strip (drop (length num) (num @ rest)) = u"
proof -
  have c: "no_outer_space (num @ rest)"
  proof (cases "u = []")
    case True
    with rest num show ?thesis by simp
  next
    case False
    with rest num u show ?thesis by (simp add: no_outer_space_def)
  qed
  have l: "\<forall>c \<in> set (num @ rest). lower_char c = c"
    using num u rest by (auto simp: lower_char_space)
  from c l show "str_lower (str_strip (num @ rest)) = num @ rest" by (rule norm_keep)
  from num show "str_strip num = num" by (simp add: strip_keep)
  show "str_strip (drop (length num) (num @ rest)) = u"
    using rest_facts(5) [OF u(1) rest] by simp
qed

lemma digits_lower: "\<forall>c \<in> set D. is_digit c \<Longrightarrow> \<forall>c \<in> set D. lower_char c = c"
  by (simp add: lower_char_digit)

lemma parse_integer_shape:
  assumes D: "D \<noteq> []" "\<forall>c \<in> set D. is_digit c"
    and u: "no_outer_space u" "\<forall>c \<in> set u. lower_char c = c"
      "u = [] \<or> (\<not> is_digit (hd u) \<and> hd u \<noteq> CHR ''/'')"
    and rest: "rest = (if u = [] then [] else CHR '' '' # u)"
  shows "parse_quantity (D @ rest) = Inr (Some (of_nat (digits_val D)), u)"
proof (rule parse_quantity_plain)
  note f = shape_frame [OF D(1) digits_clean [OF D] digits_lower [OF D(2)] u(1,2) rest]
  show "str_lower (str_strip (D @ rest)) = D @ rest" by (rule f(1))
  show "re_match quantity_pattern (D @ rest) = Some D"
    unfolding quantity_pattern_scan using D u(1,3) rest by (rule scan_integer_shape)
  show "str_strip D = D" by (rule f(2))
  show "str_strip (drop (length D) (D @ rest)) = u" by (rule f(3))
  show "CHR ''/'' \<notin> set D" using D(2) digit_not_punct by blast
  show "py_float D = Some (of_nat (digits_val D))" using D by (rule py_float_digits)
qed

lemma split_ws_run: "\<forall>c \<in> set d. \<not> is_space c \<Longrightarrow> split_ws w (d @ r) = split_ws (w @ d) r"
  by (induction d arbitrary: w) auto

lemma str_split_two:
  assumes "D \<noteq> []" "\<forall>c \<in> set D. \<not> is_space c" "Q \<noteq> []" "\<forall>c \<in> set Q. \<not> is_space c"
  shows "str_split (D @ CHR '' '' # Q) = [D, Q]"
proof -
  have "split_ws [] (D @ CHR '' '' # Q) = split_ws D (CHR '' '' # Q)"
    using assms(2) split_ws_run [of D "[]"] by simp
  also have "\<dots> = D # split_ws [] Q"
    using assms(1) by simp
  also have "split_ws [] Q = split_ws Q []"
    using assms(4) split_ws_run [of Q "[]" "[]"] by simp
  also have "\<dots> = [Q]"
    using assms(3) by simp
  finally show ?thesis by (simp add: str_split_def)
qed

lemma int_ratio_quarter:
  assumes "is_digit a" "is_digit b" "digit_val b \<noteq> 0"
  shows "int_ratio (str_split_sep (CHR ''/'') [a, CHR ''/'', b]) =
    Inr (of_nat (digit_val a) / of_nat (digit_val b))"
proof -
  have s: "str_split_sep (CHR ''/'') [a, CHR ''/'', b] = [[a], [b]]"
    using assms digit_not_punct by (simp add: str_split_sep_def)
  have a: "py_int [a] = Some (int (digit_val a))"
    using py_int_digits [of "[a]"] assms by (simp add: digits_val_def)
  have b: "py_int [b] = Some (int (digit_val b))"
    using py_int_digits [of "[b]"] assms by (simp add: digits_val_def)
  show ?thesis
    unfolding s int_ratio_def using a b assms(3) by simp
qed

lemma parse_mixed_shape:
  assumes D: "D \<noteq> []" "\<forall>c \<in> set D. is_digit c"
    and ab: "is_digit a" "is_digit b" "digit_val b \<noteq> 0"
    and u: "no_outer_space u" "\<forall>c \<in> set u. lower_char c = c"
    and rest: "rest = (if u = [] then [] else CHR '' '' # u)"
  shows "parse_quantity ((D @ CHR '' '' # [a, CHR ''/'', b]) @ rest) =
    Inr (Some (of_nat (digits_val D) + of_nat (digit_val a) / of_nat (digit_val b)), u)"
proof (rule parse_quantity_mixed)
  let ?n = "D @ CHR '' '' # [a, CHR ''/'', b]"
  have n1: "?n \<noteq> []" by simp
  have n2: "no_outer_space ?n"
    using D ab digit_not_space by (cases D) (auto simp: no_outer_space_def)
  have n3: "\<forall>c \<in> set ?n. lower_char c = c"
    using D ab by (auto simp: lower_char_digit lower_char_space)
  note f = shape_frame [OF n1 n2 n3 u rest]
  show "str_lower (str_strip (?n @ rest)) = ?n @ rest" by (rule f(1))
  show "re_match quantity_pattern (?n @ rest) = Some ?n"
    unfolding quantity_pattern_scan using D ab(1,2) u(1) rest by (rule scan_mixed_shape)
  show "str_strip ?n = ?n" by (rule f(2))
  show "str_strip (drop (length ?n) (?n @ rest)) = u" by (rule f(3))
  show "CHR '' '' \<in> set ?n" by simp
  show "CHR ''/'' \<in> set ?n" by simp
  show "str_split ?n = [D, [a, CHR ''/'', b]]"
    using D ab digit_not_space by (intro str_split_two) auto
  show "py_float D = Some (of_nat (digits_val D))" using D by (rule py_float_digits)
  show "int_ratio (str_split_sep (CHR ''/'') [a, CHR ''/'', b]) =
    Inr (of_nat (digit_val a) / of_nat (digit_val b))"
    using ab by (rule int_ratio_quarter)
qed

lemma parse_fraction_shape:
  assumes ab: "is_digit a" "is_digit b" "digit_val b \<noteq> 0"
    and u: "no_outer_space u" "\<forall>c \<in> set u. lower_char c = c"
    and rest: "rest = (if u = [] then [] else CHR '' '' # u)"
  shows "parse_quantity ([a, CHR ''/'', b] @ rest) =
    Inr (Some (of_nat (digit_val a) / of_nat (digit_val b)), u)"
proof (rule parse_quantity_fraction)
  let ?n = "[a, CHR ''/'', b]"
  have n1: "?n \<noteq> []" by simp
  have n2: "no_outer_space ?n"
    using ab digit_not_space by (auto simp: no_outer_space_def)
  have n3: "\<forall>c \<in> set ?n. lower_char c = c"
    using ab by (auto simp: lower_char_digit)
  note f = shape_frame [OF n1 n2 n3 u rest]
  show "str_lower (str_strip (?n @ rest)) = ?n @ rest" by (rule f(1))
  show "re_match quantity_pattern (?n @ rest) = Some ?n"
    unfolding quantity_pattern_scan using ab(1,2) u(1) rest by (rule scan_fraction_shape)
  show "str_strip ?n = ?n" by (rule f(2))
  show "str_strip (drop (length ?n) (?n @ rest)) = u" by (rule f(3))
  show "CHR '' '' \<notin> set ?n" using ab digit_not_punct by auto
  show "CHR ''/'' \<in> set ?n" by simp
  show "int_ratio (str_split_sep (CHR ''/'') ?n) =
    Inr (of_nat (digit_val a) / of_nat (digit_val b))"
    using ab by (rule int_ratio_quarter)
qed

lemma parse_decimal_shape:
  assumes D: "D \<noteq> []" "\<forall>c \<in> set D. is_digit c"
    and ab: "is_digit a" "is_digit b"
    and u: "no_outer_space u" "\<forall>c \<in> set u. lower_char c = c"
    and rest: "rest = (if u = [] then [] else CHR '' '' # u)"
  shows "parse_quantity ((D @ CHR ''.'' # [a, b]) @ rest) =
    Inr (Some (of_nat (digits_val D) + of_nat (digits_val [a, b]) / 100), u)"
proof (rule parse_quantity_plain)
  let ?n = "D @ CHR ''.'' # [a, b]"
  have n1: "?n \<noteq> []" by simp
  have n2: "no_outer_space ?n"
    using D ab digit_not_space by (cases D) (auto simp: no_outer_space_def)
  have n3: "\<forall>c \<in> set ?n. lower_char c = c"
    using D ab by (auto simp: lower_char_digit)
  note f = shape_frame [OF n1 n2 n3 u rest]
  show "str_lower (str_strip (?n @ rest)) = ?n @ rest" by (rule f(1))
  show "re_match quantity_pattern (?n @ rest) = Some ?n"
    unfolding quantity_pattern_scan using D ab u(1) rest by (rule scan_decimal_shape)
  show "str_strip ?n = ?n" by (rule f(2))
  show "str_strip (drop (length ?n) (?n @ rest)) = u" by (rule f(3))
  show "CHR ''/'' \<notin> set ?n" using D ab digit_not_punct by auto
  show "py_float ?n = Some (of_nat (digits_val D) + of_nat (digits_val [a, b]) / 100)"
    using py_float_decimal [of D "[a, b]"] D ab by simp
qed

subsection \<open>The formatter on a non-negative magnitude\<close>

lemma round_half_even_bound:
  assumes "0 \<le> r"
  shows "\<bar>of_nat (round_half_even r) - r\<bar> \<le> 1 / 2"
proof -
  define f where "f = nat \<lfloor>r\<rfloor>"
  have fl: "(of_nat f :: rat) = of_int \<lfloor>r\<rfloor>"
    using assms by (simp add: f_def)
  have lo: "of_nat f \<le> r" and hi: "r < of_nat f + 1"
    unfolding fl by linarith+
  show ?thesis
    unfolding round_half_even_def Let_def f_def [symmetric]
    using lo hi by (auto simp: abs_if)
qed

lemma two_digits_val:
  fixes h :: nat
  shows "digits_val [char_of (48 + (h mod 100) div 10), char_of (48 + h mod 10)] = h mod 100"
proof -
  have a: "(h mod 100) div 10 < 10" by (simp add: less_mult_imp_div_less)
  have b: "h mod 10 < 10" by simp
  have m: "h mod 10 = (h mod 100) mod 10"
    by (simp add: mod_mod_cancel)
  have e: "10 * ((h mod 100) div 10) + h mod 10 = h mod 100"
    unfolding m by simp
  have "digits_val [char_of (48 + (h mod 100) div 10), char_of (48 + h mod 10)] =
    10 * ((h mod 100) div 10) + h mod 10"
    using digit_val_char_of [OF a] digit_val_char_of [OF b] by (simp add: digits_val_def)
  then show ?thesis unfolding e .
qed

lemma hundredths: "(of_nat (h div 100) :: rat) + of_nat (h mod 100) / 100 = of_nat h / 100"
proof -
  have "(of_nat h :: rat) = of_nat (100 * (h div 100) + h mod 100)" by simp
  also have "\<dots> = 100 * of_nat (h div 100) + of_nat (h mod 100)"
    by (simp only: of_nat_add of_nat_mult of_nat_numeral)
  finally show ?thesis by simp
qed

lemma whole_and_pos:
  assumes "0 < w" "is_digit a" "is_digit b"
  shows "whole_and w [a, CHR ''/'', b] = str_of_nat (nat w) @ CHR '' '' # [a, CHR ''/'', b]"
proof -
  have "no_outer_space (str_of_nat (nat w) @ CHR '' '' # [a, CHR ''/'', b])"
    using str_of_nat_digits [of "nat w"] assms digit_not_space
    by (cases "str_of_nat (nat w)") (auto simp: no_outer_space_def)
  then show ?thesis
    using assms(1) by (simp add: whole_and_def str_of_int_def strip_keep)
qed

lemma whole_and_zero:
  assumes "\<not> 0 < w" "is_digit a" "is_digit b"
  shows "whole_and w [a, CHR ''/'', b] = [a, CHR ''/'', b]"
proof -
  have "no_outer_space [a, CHR ''/'', b]"
    using assms digit_not_space by (auto simp: no_outer_space_def)
  from rest_facts(5) [OF this, of "CHR '' '' # [a, CHR ''/'', b]"]
  show ?thesis using assms(1) by (simp add: whole_and_def)
qed

lemma format_2f_nonneg:
  assumes "0 \<le> v"
  shows "format_2f v = str_of_nat (round_half_even (v * 100) div 100) @ CHR ''.'' #
    [char_of (48 + (round_half_even (v * 100) mod 100) div 10),
     char_of (48 + round_half_even (v * 100) mod 10)]"
  using assms by (simp add: format_2f_def Let_def)

lemma format_rest:
  assumes "no_outer_space u"
  shows "format_scaled_quantity (Some v) u =
    formatted_num v @ (if u = [] then [] else CHR '' '' # u)"
  using assms format_unit_empty [of v] format_unit_clean [of u v] by (cases "u = []") simp_all

lemma py_trunc_nonneg:
  assumes "0 \<le> v"
  shows "0 \<le> py_trunc v" and "(of_nat (nat (py_trunc v)) :: rat) = of_int (py_trunc v)"
    and "of_int (py_trunc v) \<le> v"
  using assms by (simp_all add: py_trunc_def)

lemma quarter_roundtrip:
  assumes v: "0 \<le> v"
    and ab: "is_digit a" "is_digit b" "digit_val b \<noteq> 0"
    and u: "no_outer_space u" "\<forall>c \<in> set u. lower_char c = c"
    and rest: "rest = (if u = [] then [] else CHR '' '' # u)"
  shows "parse_quantity (whole_and (py_trunc v) [a, CHR ''/'', b] @ rest) =
    Inr (Some (of_int (py_trunc v) + of_nat (digit_val a) / of_nat (digit_val b)), u)"
proof (cases "0 < py_trunc v")
  case True
  note d = str_of_nat_digits [of "nat (py_trunc v)"]
  have "parse_quantity ((str_of_nat (nat (py_trunc v)) @ CHR '' '' # [a, CHR ''/'', b]) @ rest) =
    Inr (Some (of_nat (digits_val (str_of_nat (nat (py_trunc v)))) +
      of_nat (digit_val a) / of_nat (digit_val b)), u)"
    using d [THEN conjunct1] d [THEN conjunct2] ab u rest by (rule parse_mixed_shape)
  then show ?thesis
    using True ab py_trunc_nonneg(2) [OF v]
    by (simp add: whole_and_pos digits_val_str_of_nat)
next
  case False
  with py_trunc_nonneg(1) [OF v] have z: "py_trunc v = 0" by simp
  have "parse_quantity ([a, CHR ''/'', b] @ rest) =
    Inr (Some (of_nat (digit_val a) / of_nat (digit_val b)), u)"
    using ab u rest by (rule parse_fraction_shape)
  then show ?thesis
    using False ab z by (simp add: whole_and_zero)
qed

lemma decimal_roundtrip:
  assumes v: "0 \<le> v"
    and u: "no_outer_space u" "\<forall>c \<in> set u. lower_char c = c"
    and rest: "rest = (if u = [] then [] else CHR '' '' # u)"
  shows "parse_quantity (format_2f v @ rest) =
    Inr (Some (of_nat (round_half_even (v * 100)) / 100), u)"
proof -
  define h where "h = round_half_even (v * 100)"
  note d = str_of_nat_digits [of "h div 100"]
  have a: "is_digit (char_of (48 + (h mod 100) div 10))"
    by (intro is_digit_char_of) (simp add: less_mult_imp_div_less)
  have b: "is_digit (char_of (48 + h mod 10))"
    by (intro is_digit_char_of) simp
  have "parse_quantity ((str_of_nat (h div 100) @ CHR ''.'' #
      [char_of (48 + (h mod 100) div 10), char_of (48 + h mod 10)]) @ rest) =
    Inr (Some (of_nat (digits_val (str_of_nat (h div 100))) +
      of_nat (digits_val [char_of (48 + (h mod 100) div 10), char_of (48 + h mod 10)]) / 100), u)"
    using d [THEN conjunct1] d [THEN conjunct2] a b u rest by (rule parse_decimal_shape)
  then show ?thesis
    unfolding format_2f_nonneg [OF v] h_def [symmetric] digits_val_str_of_nat two_digits_val
      hundredths .
qed

lemma integer_roundtrip:
  assumes v: "0 \<le> v" "v - of_int (py_trunc v) = 0"
    and u: "no_outer_space u" "\<forall>c \<in> set u. lower_char c = c"
      "u = [] \<or> (\<not> is_digit (hd u) \<and> hd u \<noteq> CHR ''/'')"
    and rest: "rest = (if u = [] then [] else CHR '' '' # u)"
  shows "parse_quantity (str_of_int (py_trunc v) @ rest) = Inr (Some v, u)"
proof -
  note d = str_of_nat_digits [of "nat (py_trunc v)"]
  have "parse_quantity (str_of_nat (nat (py_trunc v)) @ rest) =
    Inr (Some (of_nat (digits_val (str_of_nat (nat (py_trunc v))))), u)"
    using d [THEN conjunct1] d [THEN conjunct2] u rest by (rule parse_integer_shape)
  moreover have "str_of_int (py_trunc v) = str_of_nat (nat (py_trunc v))"
    using py_trunc_nonneg(1) [OF v(1)] by (simp add: str_of_int_def)
  moreover have "(of_nat (nat (py_trunc v)) :: rat) = v"
    using py_trunc_nonneg(2) [OF v(1)] v(2) by simp
  ultimately show ?thesis by (simp add: digits_val_str_of_nat)
qed

lemma quarter_digits:
  "is_digit (CHR ''1'')" "is_digit (CHR ''2'')" "is_digit (CHR ''3'')" "is_digit (CHR ''4'')"
  "digit_val (CHR ''1'') = 1" "digit_val (CHR ''2'') = 2" "digit_val (CHR ''3'') = 3"
  "digit_val (CHR ''4'') = 4"
  by (simp_all add: is_digit_def digit_val_def)

lemma format_parse_value:
  assumes v: "0 \<le> v"
    and u: "no_outer_space u" "\<forall>c \<in> set u. lower_char c = c"
      "u = [] \<or> (\<not> is_digit (hd u) \<and> hd u \<noteq> CHR ''/'')"
  shows "\<exists>m'. parse_quantity (format_scaled_quantity (Some v) u) = Inr (Some m', u) \<and>
    \<bar>m' - v\<bar> \<le> 1 / 100"
proof -
  define rest where "rest = (if u = [] then [] else CHR '' '' # u)"
  define dec where "dec = v - of_int (py_trunc v)"
  have fr: "format_scaled_quantity (Some v) u = formatted_num v @ rest"
    unfolding rest_def using u(1) by (rule format_rest)
  consider (int) "dec = 0"
    | (half) "dec \<noteq> 0" "\<bar>dec - 1 / 2\<bar> < 1 / 100"
    | (quarter) "dec \<noteq> 0" "\<not> \<bar>dec - 1 / 2\<bar> < 1 / 100" "\<bar>dec - 1 / 4\<bar> < 1 / 100"
    | (three) "dec \<noteq> 0" "\<not> \<bar>dec - 1 / 2\<bar> < 1 / 100" "\<not> \<bar>dec - 1 / 4\<bar> < 1 / 100"
        "\<bar>dec - 3 / 4\<bar> < 1 / 100"
    | (other) "dec \<noteq> 0" "\<not> \<bar>dec - 1 / 2\<bar> < 1 / 100" "\<not> \<bar>dec - 1 / 4\<bar> < 1 / 100"
        "\<not> \<bar>dec - 3 / 4\<bar> < 1 / 100"
    by blast
  then show ?thesis
  proof cases
    case int
    then have "formatted_num v = str_of_int (py_trunc v)"
      by (simp add: formatted_num_def dec_def)
    moreover have "parse_quantity (str_of_int (py_trunc v) @ rest) = Inr (Some v, u)"
      using v int [unfolded dec_def] u rest_def by (rule integer_roundtrip)
    ultimately show ?thesis using fr by simp
  next
    case half
    then have "formatted_num v = whole_and (py_trunc v) ''1/2''"
      by (simp add: formatted_num_def dec_def)
    moreover have "parse_quantity (whole_and (py_trunc v) ''1/2'' @ rest) =
      Inr (Some (of_int (py_trunc v) + of_nat (digit_val (CHR ''1'')) / of_nat (digit_val (CHR ''2''))), u)"
      using v quarter_digits(1,2) _ u(1,2) rest_def
      by (rule quarter_roundtrip) (simp add: quarter_digits)
    ultimately have "parse_quantity (format_scaled_quantity (Some v) u) =
      Inr (Some (of_int (py_trunc v) + 1 / 2), u)"
      using fr by (simp add: quarter_digits)
    moreover have "\<bar>of_int (py_trunc v) + 1 / 2 - v\<bar> \<le> 1 / 100"
      using half(2) unfolding dec_def by linarith
    ultimately show ?thesis by blast
  next
    case quarter
    then have "formatted_num v = whole_and (py_trunc v) ''1/4''"
      by (simp add: formatted_num_def dec_def)
    moreover have "parse_quantity (whole_and (py_trunc v) ''1/4'' @ rest) =
      Inr (Some (of_int (py_trunc v) + of_nat (digit_val (CHR ''1'')) / of_nat (digit_val (CHR ''4''))), u)"
      using v quarter_digits(1,4) _ u(1,2) rest_def
      by (rule quarter_roundtrip) (simp add: quarter_digits)
    ultimately have "parse_quantity (format_scaled_quantity (Some v) u) =
      Inr (Some (of_int (py_trunc v) + 1 / 4), u)"
      using fr by (simp add: quarter_digits)
    moreover have "\<bar>of_int (py_trunc v) + 1 / 4 - v\<bar> \<le> 1 / 100"
      using quarter(3) unfolding dec_def by linarith
    ultimately show ?thesis by blast
  next
    case three
    then have "formatted_num v = whole_and (py_trunc v) ''3/4''"
      by (simp add: formatted_num_def dec_def)
    moreover have "parse_quantity (whole_and (py_trunc v) ''3/4'' @ rest) =
      Inr (Some (of_int (py_trunc v) + of_nat (digit_val (CHR ''3'')) / of_nat (digit_val (CHR ''4''))), u)"
      using v quarter_digits(3,4) _ u(1,2) rest_def
      by (rule quarter_roundtrip) (simp add: quarter_digits)
    ultimately have "parse_quantity (format_scaled_quantity (Some v) u) =
      Inr (Some (of_int (py_trunc v) + 3 / 4), u)"
      using fr by (simp add: quarter_digits)
    moreover have "\<bar>of_int (py_trunc v) + 3 / 4 - v\<bar> \<le> 1 / 100"
      using three(4) unfolding dec_def by linarith
    ultimately show ?thesis by blast
  next
    case other
    then have "formatted_num v = format_2f v"
      by (simp add: formatted_num_def dec_def)
    moreover have "parse_quantity (format_2f v @ rest) =
      Inr (Some (of_nat (round_half_even (v * 100)) / 100), u)"
      using v u(1,2) rest_def by (rule decimal_roundtrip)
    ultimately have "parse_quantity (format_scaled_quantity (Some v) u) =
      Inr (Some (of_nat (round_half_even (v * 100)) / 100), u)"
      using fr by simp
    moreover have "\<bar>of_nat (round_half_even (v * 100)) / 100 - v\<bar> \<le> 1 / 100"
    proof -
      have "0 \<le> v * 100" using v by simp
      from round_half_even_bound [OF this] show ?thesis by linarith
    qed
    ultimately show ?thesis by blast
  qed
qed

subsection \<open>Scaling by a factor and by its inverse\<close>

text \<open>
  Claim C4 says that for every parsed magnitude \<open>m\<close> and every positive factor \<open>f\<close>,
  scaling by \<open>f\<close> (format, then parse again) and then by \<open>1/f\<close> gives a magnitude within
  0.01 of \<open>m\<close>. Two inputs show otherwise. \<open>"1 cup"\<close> scaled by 1/7 is formatted as
  \<open>"0.14 cup"\<close>, which parses to 0.14 and scales back to 0.98: the formatter keeps two
  decimals, and a factor below 1 magnifies what it drops. \<open>"1.0 1/2"\<close> parses to the
  magnitude 1 with the unit \<open>"1/2"\<close>; scaled by 2 it is formatted as \<open>"2 1/2"\<close>, which
  parses to 2.5 and scales back to 1.25: a unit that begins like a fraction is read as
  part of the number.
\<close>

theorem scale_roundtrip_counterexample:
  "parse_quantity ''1 cup'' = Inr (Some 1, ''cup'') \<and>
   parse_quantity (format_scaled_quantity (Some (1 * (1 / 7))) ''cup'') = Inr (Some (7 / 50), ''cup'') \<and>
   \<not> \<bar>(7 / 50) * (1 / (1 / 7)) - 1\<bar> \<le> (1 / 100 :: rat) \<and>
   parse_quantity ''1.0 1/2'' = Inr (Some 1, ''1/2'') \<and>
   parse_quantity (format_scaled_quantity (Some (1 * 2)) ''1/2'') = Inr (Some (5 / 2), '''') \<and>
   \<not> \<bar>(5 / 2) * (1 / 2) - 1\<bar> \<le> (1 / 100 :: rat)"
  by code_simp

text \<open>
  Claim C4 as amended. For every quantity string that parses to a magnitude \<open>m\<close> and a
  unit that does not begin with a digit or a slash, and for every positive factor \<open>f\<close>:
  the scaled quantity, formatted and parsed again, has the same unit and a magnitude
  within 0.01 of \<open>m * f\<close>; scaled by \<open>1/f\<close> it is within \<open>0.01 / f\<close> of \<open>m\<close>, hence within
  0.01 of \<open>m\<close> whenever \<open>f\<close> is at least 1.
\<close>

theorem scale_roundtrip:
  assumes "parse_quantity s = Inr (Some m, u)" and "0 < f"
    and "u = [] \<or> (\<not> is_digit (hd u) \<and> hd u \<noteq> CHR ''/'')"
  shows "\<exists>m'. parse_quantity (format_scaled_quantity (Some (m * f)) u) = Inr (Some m', u) \<and>
    \<bar>m' - m * f\<bar> \<le> 1 / 100 \<and>
    \<bar>m' * (1 / f) - m\<bar> \<le> (1 / 100) / f \<and>
    (1 \<le> f \<longrightarrow> \<bar>m' * (1 / f) - m\<bar> \<le> 1 / 100)"
proof -
  have "0 \<le> m" using assms(1) by (rule parse_quantity_magnitude_ge0)
  with assms(2) have v: "0 \<le> m * f" by simp
  note p = parse_unit_props [OF assms(1)]
  from format_parse_value [OF v p [THEN conjunct1] p [THEN conjunct2] assms(3)]
  obtain m' where m': "parse_quantity (format_scaled_quantity (Some (m * f)) u) = Inr (Some m', u)"
    "\<bar>m' - m * f\<bar> \<le> 1 / 100" by blast
  have "m' * (1 / f) - m = (m' - m * f) / f"
    using assms(2) by (simp add: field_simps)
  then have "\<bar>m' * (1 / f) - m\<bar> = \<bar>m' - m * f\<bar> / f"
    using assms(2) by simp
  also have "\<dots> \<le> (1 / 100) / f"
    using m'(2) assms(2) by (intro divide_right_mono) simp_all
  finally have b: "\<bar>m' * (1 / f) - m\<bar> \<le> (1 / 100) / f" .
  have "1 \<le> f \<longrightarrow> \<bar>m' * (1 / f) - m\<bar> \<le> 1 / 100"
  proof
    assume "1 \<le> f"
    then have "(1 / 100) / f \<le> (1 / 100 :: rat)"
      using assms(2) by (simp add: field_simps)
    with b show "\<bar>m' * (1 / f) - m\<bar> \<le> 1 / 100" by linarith
  qed
  with m' b show ?thesis by blast
qed

theorem scale_roundtrip_witness:
  "\<exists>m'. parse_quantity (format_scaled_quantity (Some (2 * 2)) ''cups flour'') =
       Inr (Some m', ''cups flour'') \<and>
     \<bar>m' * (1 / 2) - 2\<bar> \<le> 1 / 100"
proof -
  have p: "parse_quantity ''2 cups flour'' = Inr (Some 2, ''cups flour'')" by code_simp
  have f: "(0 :: rat) < 2" by simp
  have c: "''cups flour'' = [] \<or>
    (\<not> is_digit (hd ''cups flour'') \<and> hd ''cups flour'' \<noteq> CHR ''/'')"
    by (simp add: is_digit_def)
  from scale_roundtrip [OF p f c] show ?thesis by auto
qed

subsection \<open>The prefixes the pattern matches\<close>

text \<open>
  The pattern fails exactly on the strings without a digit or a point and a digit at
  their start; away from the shape \<open>bare_fraction_form\<close> it reads the forms of
  \<open>amended_forms\<close>; and a match without a slash is always a number that \<open>float\<close>
  converts, so that the \<open>except ValueError\<close> of line 66 is never taken.
\<close>

lemma scan_forms_none_iff: "(scan_forms quantity_pattern t = None) = (\<not> starts_numeric t)"
proof (cases t)
  case Nil
  then show ?thesis by (simp add: quantity_pattern_def starts_numeric_def)
next
  case (Cons c cs)
  show ?thesis
  proof (cases "is_digit c")
    case True
    with Cons have "scan_form [Plus Digit] t \<noteq> None" by simp
    then have "scan_forms quantity_pattern t \<noteq> None"
      by (auto simp add: quantity_pattern_def simp del: scan_form.simps split: option.splits)
    with True Cons show ?thesis by (simp add: starts_numeric_def)
  next
    case False
    with Cons show ?thesis
      by (cases cs) (auto simp: quantity_pattern_def starts_numeric_def split: option.splits)
  qed
qed

lemma takeWhile_dropWhile_Nil: "takeWhile P (dropWhile P s) = []"
  by (induction s) auto

lemma dropWhile_twice: "dropWhile P (dropWhile P s) = dropWhile P s"
  by (induction s) auto

lemma takeWhile_Nil_dropWhile: "takeWhile P s = [] \<Longrightarrow> dropWhile P s = s"
  by (cases s) (auto split: if_splits)

lemma scan_forms_first_swap:
  assumes "scan_form f1 s = scan_form g1 s \<or>
    (scan_form g1 s = None \<and> scan_form f2 s = None \<and> scan_form f3 s = scan_form f1 s)"
  shows "scan_forms [f1, f2, f3, f4] s = scan_forms [g1, f2, f3, f4] s"
  using assms
proof
  assume "scan_form f1 s = scan_form g1 s"
  then show ?thesis by (simp del: scan_form.simps)
next
  assume a: "scan_form g1 s = None \<and> scan_form f2 s = None \<and> scan_form f3 s = scan_form f1 s"
  show ?thesis
  proof (cases "scan_form f1 s")
    case None
    with a show ?thesis by (simp del: scan_form.simps)
  next
    case (Some r)
    with a show ?thesis by (simp del: scan_form.simps)
  qed
qed

lemma scan_amended:
  assumes "scan_form bare_fraction_form s = None"
  shows "scan_forms quantity_pattern s = scan_forms amended_forms s"
proof -
  define s1 where "s1 = dropWhile is_digit s"
  define s2 where "s2 = dropWhile is_space s1"
  define s3 where "s3 = dropWhile is_digit s2"
  let ?T = "scan_form [One (Lit (CHR ''/'')), Plus Digit]"
  let ?c1 = "scan_form [Plus Digit, Star Space, Star Digit, One (Lit (CHR ''/'')), Plus Digit] s"
  let ?a1 = "scan_form [Plus Digit, Plus Space, Plus Digit, One (Lit (CHR ''/'')), Plus Digit] s"
  let ?c2 = "scan_form [Star Digit, One (Lit (CHR ''.'')), Plus Digit] s"
  let ?c3 = "scan_form [Plus Digit, One (Lit (CHR ''/'')), Plus Digit] s"
  have c1: "?c1 = (if takeWhile is_digit s = [] then None else ?T s3)"
    by (simp add: s1_def s2_def s3_def)
  have a1: "?a1 = (if takeWhile is_digit s = [] \<or> takeWhile is_space s1 = [] \<or>
      takeWhile is_digit s2 = [] then None else ?T s3)"
    by (simp add: s1_def s2_def s3_def)
  have b: "scan_form bare_fraction_form s =
    (if takeWhile is_digit s = [] \<or> takeWhile is_space s1 = [] then None else ?T s2)"
    by (simp add: bare_fraction_form_def s1_def s2_def)
  have c3: "?c3 = (if takeWhile is_digit s = [] then None else ?T s1)"
    by (simp add: s1_def)
  have c2: "?c2 = scan_form [One (Lit (CHR ''.'')), Plus Digit] s1"
    by (simp add: s1_def)
  have key: "?c1 = ?a1 \<or> (?a1 = None \<and> ?c2 = None \<and> ?c3 = ?c1)"
  proof (cases "takeWhile is_digit s = []")
    case True
    then show ?thesis unfolding c1 a1 by simp
  next
    case d: False
    show ?thesis
    proof (cases "takeWhile is_space s1 = []")
      case True
      then have "s2 = s1" unfolding s2_def by (rule takeWhile_Nil_dropWhile)
      then have s3: "s3 = s1" unfolding s3_def s1_def by (simp add: dropWhile_twice)
      have "?T s1 = None \<or> scan_form [One (Lit (CHR ''.'')), Plus Digit] s1 = None"
        by (cases s1) auto
      then show ?thesis
        unfolding c1 a1 c2 c3 s3 using d True by auto
    next
      case sp: False
      show ?thesis
      proof (cases "takeWhile is_digit s2 = []")
        case True
        then have s3: "s3 = s2" unfolding s3_def by (rule takeWhile_Nil_dropWhile)
        from assms d sp have "?T s2 = None" unfolding b by simp
        then show ?thesis
          unfolding c1 a1 s3 using d sp True by simp
      next
        case False
        then show ?thesis
          unfolding c1 a1 using d sp by simp
      qed
    qed
  qed
  show ?thesis
    unfolding quantity_pattern_def amended_forms_def using key by (rule scan_forms_first_swap)
qed

lemma mixed_shape:
  assumes "r \<in> set (seq_ends [Plus Digit, Star Space, Star Digit, One (Lit (CHR ''/'')), Plus Digit] s)"
  shows "\<exists>d1 sp d2 d3. s = (d1 @ sp @ d2 @ CHR ''/'' # d3) @ r \<and> d1 \<noteq> [] \<and> d3 \<noteq> [] \<and>
    (\<forall>c \<in> set d1. is_digit c) \<and> (\<forall>c \<in> set d3. is_digit c)"
proof -
  from assms obtain m1 m2 m3 m4 where
    e1: "m1 \<in> set (item_ends (Plus Digit) s)" and
    e2: "m2 \<in> set (star_ends Space m1)" and
    e3: "m3 \<in> set (star_ends Digit m2)" and
    e4: "m4 \<in> set (item_ends (One (Lit (CHR ''/''))) m3)" and
    e5: "r \<in> set (item_ends (Plus Digit) m4)"
    by (auto simp del: item_ends.simps(1,3) simp add: seq_ends_Cons_set)
  from e1 obtain d1 where d1: "s = d1 @ m1" "d1 \<noteq> []" "\<forall>c \<in> set d1. is_digit c"
    unfolding plus_ends_set by auto
  from e2 obtain sp where sp: "m1 = sp @ m2"
    unfolding star_ends_set by auto
  from e3 obtain d2 where d2: "m2 = d2 @ m3"
    unfolding star_ends_set by auto
  from e4 have m3: "m3 = CHR ''/'' # m4"
    unfolding one_ends_set by auto
  from e5 obtain d3 where d3: "m4 = d3 @ r" "d3 \<noteq> []" "\<forall>c \<in> set d3. is_digit c"
    unfolding plus_ends_set by auto
  have "s = (d1 @ sp @ d2 @ CHR ''/'' # d3) @ r"
    using d1(1) sp d2 m3 d3(1) by simp
  with d1 d3 show ?thesis by blast
qed

lemma decimal_shape:
  assumes "r \<in> set (seq_ends [Star Digit, One (Lit (CHR ''.'')), Plus Digit] s)"
  shows "\<exists>d1 d2. s = (d1 @ CHR ''.'' # d2) @ r \<and> d2 \<noteq> [] \<and>
    (\<forall>c \<in> set d1. is_digit c) \<and> (\<forall>c \<in> set d2. is_digit c)"
proof -
  from assms obtain m1 m2 where
    e1: "m1 \<in> set (star_ends Digit s)" and
    e2: "m2 \<in> set (item_ends (One (Lit (CHR ''.''))) m1)" and
    e3: "r \<in> set (item_ends (Plus Digit) m2)"
    by (auto simp del: item_ends.simps(1,3) simp add: seq_ends_Cons_set)
  from e1 obtain d1 where d1: "s = d1 @ m1" "\<forall>c \<in> set d1. is_digit c"
    unfolding star_ends_set by auto
  from e2 have m1: "m1 = CHR ''.'' # m2"
    unfolding one_ends_set by auto
  from e3 obtain d2 where d2: "m2 = d2 @ r" "d2 \<noteq> []" "\<forall>c \<in> set d2. is_digit c"
    unfolding plus_ends_set by auto
  have "s = (d1 @ CHR ''.'' # d2) @ r"
    using d1(1) m1 d2(1) by simp
  with d1 d2 show ?thesis by blast
qed

lemma fraction_shape:
  assumes "r \<in> set (seq_ends [Plus Digit, One (Lit (CHR ''/'')), Plus Digit] s)"
  shows "\<exists>d1 d2. s = (d1 @ CHR ''/'' # d2) @ r \<and> d1 \<noteq> [] \<and> d2 \<noteq> [] \<and>
    (\<forall>c \<in> set d1. is_digit c) \<and> (\<forall>c \<in> set d2. is_digit c)"
proof -
  from assms obtain m1 m2 where
    e1: "m1 \<in> set (item_ends (Plus Digit) s)" and
    e2: "m2 \<in> set (item_ends (One (Lit (CHR ''/''))) m1)" and
    e3: "r \<in> set (item_ends (Plus Digit) m2)"
    by (auto simp del: item_ends.simps(1,3) simp add: seq_ends_Cons_set)
  from e1 obtain d1 where d1: "s = d1 @ m1" "d1 \<noteq> []" "\<forall>c \<in> set d1. is_digit c"
    unfolding plus_ends_set by auto
  from e2 have m1: "m1 = CHR ''/'' # m2"
    unfolding one_ends_set by auto
  from e3 obtain d2 where d2: "m2 = d2 @ r" "d2 \<noteq> []" "\<forall>c \<in> set d2. is_digit c"
    unfolding plus_ends_set by auto
  have "s = (d1 @ CHR ''/'' # d2) @ r"
    using d1(1) m1 d2(1) by simp
  with d1 d2 show ?thesis by blast
qed

lemma integer_shape:
  assumes "r \<in> set (seq_ends [Plus Digit] s)"
  shows "\<exists>d. s = d @ r \<and> d \<noteq> [] \<and> (\<forall>c \<in> set d. is_digit c)"
proof -
  from assms have "r \<in> set (item_ends (Plus Digit) s)"
    by (auto simp del: item_ends.simps(1,3) simp add: seq_ends_Cons_set)
  then show ?thesis
    unfolding plus_ends_set by auto
qed

lemma py_float_point:
  assumes "\<forall>c \<in> set d. is_digit c" and "\<forall>c \<in> set e. is_digit c" and "e \<noteq> []"
  shows "py_float (d @ CHR ''.'' # e) =
    Some (of_nat (digits_val d) + of_nat (digits_val e) / 10 ^ length e)"
proof -
  have "last e \<in> set e" using assms(3) by simp
  then have "\<not> is_space (last e)" using assms(2) digit_not_space by blast
  then have "no_outer_space (d @ CHR ''.'' # e)"
    using assms by (cases d) (auto simp: no_outer_space_def dest: digit_not_space)
  then have st: "num_strip (d @ CHR ''.'' # e) = d @ CHR ''.'' # e" by (rule num_strip_keep)
  have tw: "takeWhile is_digit (d @ CHR ''.'' # e) = d"
    using assms by (simp add: takeWhile_run_stop)
  have dw: "dropWhile is_digit (d @ CHR ''.'' # e) = CHR ''.'' # e"
    using assms by (simp add: dropWhile_run_stop)
  show ?thesis
    unfolding py_float_def Let_def st tw dw using assms by (simp add: list_all_iff)
qed

lemma match_shapes:
  assumes "re_match quantity_pattern s = Some p"
  shows "p \<noteq> [] \<and> no_outer_space p \<and> (CHR ''/'' \<in> set p \<or> py_float p \<noteq> None)"
proof -
  from assms obtain r rs where ends: "alt_ends quantity_pattern s = r # rs"
    and p: "p = take (length s - length r) s"
    by (auto simp: re_match_def split: list.splits)
  from ends have "r \<in> set (alt_ends quantity_pattern s)" by simp
  then consider
      "r \<in> set (seq_ends [Plus Digit, Star Space, Star Digit, One (Lit (CHR ''/'')), Plus Digit] s)"
    | "r \<in> set (seq_ends [Star Digit, One (Lit (CHR ''.'')), Plus Digit] s)"
    | "r \<in> set (seq_ends [Plus Digit, One (Lit (CHR ''/'')), Plus Digit] s)"
    | "r \<in> set (seq_ends [Plus Digit] s)"
    unfolding alt_ends_def quantity_pattern_def by (auto simp del: seq_ends.simps)
  then show ?thesis
  proof cases
    case 1
    from mixed_shape [OF 1] obtain d1 sp d2 d3 where
      s: "s = (d1 @ sp @ d2 @ CHR ''/'' # d3) @ r" and d: "d1 \<noteq> []" "d3 \<noteq> []"
      "\<forall>c \<in> set d1. is_digit c" "\<forall>c \<in> set d3. is_digit c" by blast
    from s p have p': "p = d1 @ sp @ d2 @ CHR ''/'' # d3" by simp
    have "is_digit (hd d1)" "is_digit (last d3)" using d by simp_all
    then have "\<not> is_space (hd p)" "\<not> is_space (last p)"
      unfolding p' using d digit_not_space by simp_all
    then show ?thesis unfolding no_outer_space_def using p' by simp
  next
    case 2
    from decimal_shape [OF 2] obtain d1 d2 where
      s: "s = (d1 @ CHR ''.'' # d2) @ r" and d: "d2 \<noteq> []"
      "\<forall>c \<in> set d1. is_digit c" "\<forall>c \<in> set d2. is_digit c" by blast
    from s p have p': "p = d1 @ CHR ''.'' # d2" by simp
    have "is_digit (last d2)" using d by simp
    then have l: "\<not> is_space (last p)"
      unfolding p' using d digit_not_space by simp
    have h: "\<not> is_space (hd p)"
      unfolding p' using d(2) digit_not_space by (cases d1) auto
    have "py_float p \<noteq> None"
      unfolding p' using py_float_point [OF d(2,3,1)] by simp
    with h l show ?thesis unfolding no_outer_space_def using p' by simp
  next
    case 3
    from fraction_shape [OF 3] obtain d1 d2 where
      s: "s = (d1 @ CHR ''/'' # d2) @ r" and d: "d1 \<noteq> []" "d2 \<noteq> []"
      "\<forall>c \<in> set d1. is_digit c" "\<forall>c \<in> set d2. is_digit c" by blast
    from s p have p': "p = d1 @ CHR ''/'' # d2" by simp
    have "is_digit (hd d1)" "is_digit (last d2)" using d by simp_all
    then have "\<not> is_space (hd p)" "\<not> is_space (last p)"
      unfolding p' using d digit_not_space by simp_all
    then show ?thesis unfolding no_outer_space_def using p' by simp
  next
    case 4
    from integer_shape [OF 4] obtain d where
      s: "s = d @ r" and d: "d \<noteq> []" "\<forall>c \<in> set d. is_digit c" by blast
    from s p have p': "p = d" by simp
    have "py_float p \<noteq> None" unfolding p' using py_float_digits [OF d] by simp
    moreover have "no_outer_space p" unfolding p' using d by (rule digits_clean)
    ultimately show ?thesis using p' d by simp
  qed
qed

lemma parse_quantity_None_iff:
  "(parse_quantity raw = Inr (None, u)) =
   (re_match quantity_pattern (str_lower (str_strip raw)) = None \<and> u = str_lower (str_strip raw))"
proof (cases "re_match quantity_pattern (str_lower (str_strip raw))")
  case None
  then show ?thesis by (auto simp: parse_quantity_def)
next
  case (Some p)
  from match_shapes [OF Some] have st: "str_strip p = p"
    and fl: "CHR ''/'' \<in> set p \<or> py_float p \<noteq> None"
    by (simp_all add: strip_keep)
  have "parse_quantity raw \<noteq> Inr (None, u)"
    using fl
    by (auto simp: parse_quantity_def Let_def Some st split: list.splits option.splits sum.splits)
  with Some show ?thesis by simp
qed

lemma parse_quantity_consumes:
  assumes "parse_quantity raw = Inr (Some q, u)"
  shows "\<exists>p. re_match quantity_pattern (str_lower (str_strip raw)) = Some p \<and>
    u = str_strip (drop (length p) (str_lower (str_strip raw)))"
proof (cases "re_match quantity_pattern (str_lower (str_strip raw))")
  case None
  with assms show ?thesis by (simp add: parse_quantity_def)
next
  case (Some p)
  from match_shapes [OF Some] have st: "str_strip p = p"
    by (simp add: strip_keep)
  from assms have "u = str_strip (drop (length p) (str_lower (str_strip raw)))"
    by (auto simp: parse_quantity_def Let_def Some st
        split: list.splits option.splits sum.splits if_splits)
  with Some show ?thesis by simp
qed

lemma scan_amended_none_iff: "(scan_forms amended_forms t = None) = (\<not> starts_numeric t)"
proof (cases t)
  case Nil
  then show ?thesis by (simp add: amended_forms_def starts_numeric_def)
next
  case (Cons c cs)
  show ?thesis
  proof (cases "is_digit c")
    case True
    with Cons have "scan_form [Plus Digit] t \<noteq> None" by simp
    then have "scan_forms amended_forms t \<noteq> None"
      by (auto simp add: amended_forms_def simp del: scan_form.simps split: option.splits)
    with True Cons show ?thesis by (simp add: starts_numeric_def)
  next
    case False
    with Cons show ?thesis
      by (cases cs) (auto simp: amended_forms_def starts_numeric_def split: option.splits)
  qed
qed

subsection \<open>The forms recognised as a numeric prefix\<close>

text \<open>
  Claim C3 says that the recognised prefixes are exactly the four forms of the
  specification. On \<open>".5 cup"\<close> the source recognises \<open>".5"\<close> and returns the magnitude
  0.5, while none of the four forms of the specification applies: the decimal
  alternative of the pattern is \<open>\d*\.\d+\<close>, the digits before the point are optional.
\<close>

theorem spec_forms_counterexample:
  "re_match quantity_pattern ''.5 cup'' = Some ''.5'' \<and>
   scan_forms spec_forms ''.5 cup'' = None \<and>
   parse_quantity ''.5 cup'' = Inr (Some (1 / 2), ''cup'')"
  by code_simp

text \<open>
  Claim C3 as amended. The numeric prefix the source recognises is the one read by the
  first of these forms, in this order, that can be read from the start of the
  normalized string: the mixed number \<open><whole> <numerator>/<denominator>\<close> with
  whitespace between the whole and the fraction, the decimal
  \<open><optional digits>.<digits>\<close>, the simple fraction \<open><numerator>/<denominator>\<close> and the
  plain integer \<open><digits>\<close>. No other prefix shape is accepted as numeric: the magnitude
  is \<open>None\<close>, with the normalized string as unit, exactly when none of the forms can be
  read; and when a magnitude is returned, the unit is what follows the prefix of the
  form, stripped. Strings that begin with a whole number, whitespace and a fraction
  without numerator (\<open>"1 /2"\<close>) are left out of the statements about the prefix.
\<close>

theorem quantity_pattern_forms:
  "(scan_form bare_fraction_form s = None \<longrightarrow>
      re_match quantity_pattern s = scan_forms amended_forms s) \<and>
   ((parse_quantity raw = Inr (None, u)) =
      (scan_forms amended_forms (str_lower (str_strip raw)) = None \<and>
       u = str_lower (str_strip raw))) \<and>
   (scan_form bare_fraction_form (str_lower (str_strip raw)) = None \<longrightarrow>
    parse_quantity raw = Inr (Some q, u) \<longrightarrow>
      (\<exists>p. scan_forms amended_forms (str_lower (str_strip raw)) = Some p \<and>
           u = str_strip (drop (length p) (str_lower (str_strip raw)))))"
proof (intro conjI impI)
  assume "scan_form bare_fraction_form s = None"
  then show "re_match quantity_pattern s = scan_forms amended_forms s"
    by (simp add: quantity_pattern_scan scan_amended)
next
  show "(parse_quantity raw = Inr (None, u)) =
      (scan_forms amended_forms (str_lower (str_strip raw)) = None \<and>
       u = str_lower (str_strip raw))"
    by (simp add: parse_quantity_None_iff quantity_pattern_scan scan_forms_none_iff
        scan_amended_none_iff)
next
  assume b: "scan_form bare_fraction_form (str_lower (str_strip raw)) = None"
    and p: "parse_quantity raw = Inr (Some q, u)"
  from parse_quantity_consumes [OF p] obtain p' where
    "re_match quantity_pattern (str_lower (str_strip raw)) = Some p'"
    "u = str_strip (drop (length p') (str_lower (str_strip raw)))" by blast
  with b show "\<exists>p. scan_forms amended_forms (str_lower (str_strip raw)) = Some p \<and>
           u = str_strip (drop (length p) (str_lower (str_strip raw)))"
    by (simp add: quantity_pattern_scan scan_amended)
qed

theorem quantity_pattern_forms_witness:
  "re_match quantity_pattern ''1 1/2 cups'' = Some ''1 1/2'' \<and>
   scan_forms amended_forms ''1 1/2 cups'' = Some ''1 1/2'' \<and>
   parse_quantity ''1 1/2 Cups'' = Inr (Some (3 / 2), ''cups'') \<and>
   (\<exists>p. scan_forms amended_forms ''1 1/2 cups'' = Some p \<and>
        ''cups'' = str_strip (drop (length p) ''1 1/2 cups''))"
proof -
  have b: "scan_form bare_fraction_form ''1 1/2 cups'' = None" by code_simp
  have n: "str_lower (str_strip ''1 1/2 Cups'') = ''1 1/2 cups''" by code_simp
  have p: "parse_quantity ''1 1/2 Cups'' = Inr (Some (3 / 2), ''cups'')" by code_simp
  have m: "re_match quantity_pattern ''1 1/2 cups'' = Some ''1 1/2''" by code_simp
  from quantity_pattern_forms [of "''1 1/2 cups''" "''1 1/2 Cups''" "''cups''" "3 / 2"] b n p m
  show ?thesis by simp
qed

subsection \<open>Strings without a numeric prefix\<close>

text \<open>
  Claim C8 says that every input without a numeric prefix gives the magnitude \<open>None\<close>.
  With the numeric prefixes of the specification (its four forms) this fails on
  \<open>".25 tsp"\<close>: no form of the specification can be read, and the source returns the
  magnitude 0.25 and the unit \<open>"tsp"\<close>.
\<close>

theorem no_prefix_counterexample:
  "scan_forms spec_forms ''.25 tsp'' = None \<and>
   parse_quantity ''.25 tsp'' = Inr (Some (1 / 4), ''tsp'')"
  by code_simp

text \<open>
  Claim C8 as amended. The pattern of the source fails to match exactly the strings
  that start neither with a digit nor with a point followed by a digit. For every
  input whose normalized (stripped, lower-cased) form is such a string, and for no
  other input, \<open>parse_quantity\<close> returns the magnitude \<open>None\<close>, and then the unit is the
  normalized string; in particular \<open>"a pinch"\<close> gives \<open>(None, "a pinch")\<close>.
\<close>

theorem parse_quantity_no_prefix:
  "(re_match quantity_pattern t = None) = (\<not> starts_numeric t) \<and>
   ((parse_quantity raw = Inr (None, u)) =
      (\<not> starts_numeric (str_lower (str_strip raw)) \<and> u = str_lower (str_strip raw))) \<and>
   (\<not> starts_numeric (str_lower (str_strip raw)) \<longrightarrow>
      parse_quantity raw = Inr (None, str_lower (str_strip raw))) \<and>
   parse_quantity ''a pinch'' = Inr (None, ''a pinch'')"
proof (intro conjI)
  show "(re_match quantity_pattern t = None) = (\<not> starts_numeric t)"
    by (simp add: quantity_pattern_scan scan_forms_none_iff)
  show i: "(parse_quantity raw = Inr (None, u)) =
      (\<not> starts_numeric (str_lower (str_strip raw)) \<and> u = str_lower (str_strip raw))" for u
    by (simp add: parse_quantity_None_iff quantity_pattern_scan scan_forms_none_iff)
  show "\<not> starts_numeric (str_lower (str_strip raw)) \<longrightarrow>
      parse_quantity raw = Inr (None, str_lower (str_strip raw))"
    using i [of "str_lower (str_strip raw)"] by simp
  show "parse_quantity ''a pinch'' = Inr (None, ''a pinch'')"
    by code_simp
qed

theorem parse_quantity_no_prefix_witness:
  "\<not> starts_numeric ''to taste'' \<and> parse_quantity '' To Taste '' = Inr (None, ''to taste'')"
proof -
  have n: "str_lower (str_strip '' To Taste '') = ''to taste''" by code_simp
  have m: "re_match quantity_pattern ''to taste'' = None" by code_simp
  from parse_quantity_no_prefix [of "''to taste''" "'' To Taste ''" "''to taste''"] n m
  show ?thesis by simp
qed

end
